theory Spec2Isabelle
  imports Main "HOL-Library.Word"
begin

unbundle bit_operations_syntax

section \<open>Values\<close>

text \<open>
  JavaScript values as far as the watcher looks at them: primitives, functions and
  references to heap objects. A number is its IEEE-754 double, kept as the 64 bits.
\<close>

datatype val =
    VUndefined
  | VNull
  | VBool bool
  | VNum "64 word"
  | VStr string
  | VFun nat
  | VRef nat

datatype error = Error string

definition is_nan :: "64 word \<Rightarrow> bool" where
  "is_nan w \<longleftrightarrow>
     (w AND 0x7FF0000000000000 = 0x7FF0000000000000) \<and> (w AND 0x000FFFFFFFFFFFFF \<noteq> 0)"

definition is_zero :: "64 word \<Rightarrow> bool" where
  "is_zero w \<longleftrightarrow> (w AND 0x7FFFFFFFFFFFFFFF = 0)"

text \<open>\<open>a === b\<close> on two doubles: NaN equals nothing, the two zeros are equal.\<close>

definition num_strict_eq :: "64 word \<Rightarrow> 64 word \<Rightarrow> bool" where
  "num_strict_eq a b \<longleftrightarrow> \<not> is_nan a \<and> \<not> is_nan b \<and> (a = b \<or> (is_zero a \<and> is_zero b))"

text \<open>\<open>a === b\<close>: no coercion, objects and functions by identity.\<close>

fun strict_eq :: "val \<Rightarrow> val \<Rightarrow> bool" where
  "strict_eq VUndefined VUndefined = True"
| "strict_eq VNull VNull = True"
| "strict_eq (VBool a) (VBool b) = (a = b)"
| "strict_eq (VNum a) (VNum b) = num_strict_eq a b"
| "strict_eq (VStr a) (VStr b) = (a = b)"
| "strict_eq (VFun a) (VFun b) = (a = b)"
| "strict_eq (VRef a) (VRef b) = (a = b)"
| "strict_eq _ _ = False"

text \<open>
  Modelled from the spec: \<open>isObject\<close> of \<open>util/index\<close>, which is not among the sources;
  the spec calls its values object/collection-shaped. A reference to a heap object
  (a plain object or an array) is one, a primitive or a function is not.
\<close>

fun isObject :: "val \<Rightarrow> bool" where
  "isObject (VRef _) = True"
| "isObject _ = False"

definition qNaN :: "64 word" where
  "qNaN = 0x7FF8000000000000"

section \<open>Heap objects\<close>

text \<open>
  What \<open>_traverse\<close> looks at in an object: whether it is an array, whether it is
  extensible, the identifier of the Dep of its observer (\<open>val.__ob__.dep.id\<close>) when it
  has one, and its enumerable slots in key order. Reading a slot runs its accessor,
  which calls \<open>depend()\<close> on some Deps (none for a plain data property) and yields the
  stored value.
\<close>

record obj =
  isArray :: bool
  isExtensible :: bool
  ob :: "nat option"
  slots :: "(val \<times> nat list) list"

type_synonym heap = "obj list"

definition lookup :: "heap \<Rightarrow> nat \<Rightarrow> obj option" where
  "lookup h r = (if r < length h then Some (h ! r) else None)"

record tstate =
  seen :: "nat set"
  treads :: "nat list"
  visited :: "nat list"

definition stack_overflow :: error where
  "stack_overflow = Error ''Maximum call stack size exceeded''"

text \<open>
  \<open>_traverse(val, seen)\<close>. The first argument is the number of stack frames left: the
  recursion is not bounded by the source, and a JavaScript engine throws a RangeError
  when the stack is exhausted. \<open>treads\<close> collects the \<open>depend()\<close> calls of the slot
  accessors in order; \<open>visited\<close> lists the objects whose slots were walked.
  Both loops count down (\<open>while (i--)\<close>), so the slots are walked last to first.
  A reference is the position of its object in the heap; a position outside the heap
  names no object and is treated as a leaf.
\<close>

fun traverse' :: "nat \<Rightarrow> heap \<Rightarrow> val \<Rightarrow> tstate \<Rightarrow> (error + unit) \<times> tstate"
and traverse_slots ::
  "nat \<Rightarrow> heap \<Rightarrow> (val \<times> nat list) list \<Rightarrow> tstate \<Rightarrow> (error + unit) \<times> tstate"
where
  "traverse' 0 h v t = (Inl stack_overflow, t)"
| "traverse' (Suc n) h v t =
     (case v of
        VRef r \<Rightarrow>
          (case lookup h r of
             None \<Rightarrow> (Inr (), t)
           | Some x \<Rightarrow>
               if \<not> isExtensible x then (Inr (), t)
               else
                 (case ob x of
                    Some depId \<Rightarrow>
                      if depId \<in> seen t then (Inr (), t)
                      else traverse_slots n h (rev (slots x))
                             (t\<lparr>seen := insert depId (seen t), visited := visited t @ [r]\<rparr>)
                  | None \<Rightarrow>
                      traverse_slots n h (rev (slots x)) (t\<lparr>visited := visited t @ [r]\<rparr>))
          )
      | _ \<Rightarrow> (Inr (), t))"
| "traverse_slots n h [] t = (Inr (), t)"
| "traverse_slots n h (s # ss) t =
     (case traverse' n h (fst s) (t\<lparr>treads := treads t @ snd s\<rparr>) of
        (Inl e, t') \<Rightarrow> (Inl e, t')
      | (Inr _, t') \<Rightarrow> traverse_slots n h ss t')"


section \<open>Watchers, Deps and the global state\<close>

type_synonym getter_fn = "nat \<Rightarrow> heap \<Rightarrow> nat list \<times> (error + val)"

text \<open>
  A user function is known by what the watcher can observe of a call: the getter, called
  with the owning component and run on the current data, calls \<open>depend()\<close> on a
  sequence of Deps and then returns a value or throws; the callback, called with the
  component, the new and the old value, returns or throws. The fields are those of the
  class; \<open>wid\<close> is \<open>id\<close> and \<open>wvalue\<close> is \<open>value\<close>. A Dep is known by its \<open>id\<close>, a
  component by a number. What else a user function does, such as writing to the data or
  reading a computed property, is not part of a call here: it happens between the
  operations, as a change of the state.
\<close>

record watcher =
  vm :: nat
  expression :: string
  cb :: "nat \<Rightarrow> val \<Rightarrow> val \<Rightarrow> error option"
  wid :: nat
  deep :: bool
  user :: bool
  lazy :: bool
  sync :: bool
  dirty :: bool
  active :: bool
  deps :: "nat list"
  newDeps :: "nat list"
  depIds :: "nat set"
  newDepIds :: "nat set"
  getter :: getter_fn
  wvalue :: val

text \<open>The fields of a component that the watcher touches (\<open>vm._watchers\<close>,
  \<open>vm._isBeingDestroyed\<close>, \<open>vm._computedWatchers\<close>).\<close>

record component =
  watchers_vm :: "nat list"
  isBeingDestroyed :: bool
  computedWatchers :: "string \<Rightarrow> nat option"

text \<open>
  The configuration and environment the code reads: \<open>config.errorHandler\<close> when it is
  set, a user function that is called with the error, the component and the context
  label and returns (\<open>None\<close>) or throws; \<open>inBrowser\<close>; whether \<open>console\<close> is defined; whether
  \<open>process.env.NODE_ENV\<close> is \<open>'production'\<close>, the stack frames available to
  the calls that \<open>_traverse\<close> makes to itself, and \<open>parsePath\<close> of \<open>util/index\<close>, which is not among the sources
  and is taken as a parameter (\<open>None\<close> when it returns no getter).
\<close>

record config =
  errorHandler :: "(error \<Rightarrow> nat \<Rightarrow> string \<Rightarrow> error option) option"
  inBrowser :: bool
  hasConsole :: bool
  production :: bool
  stackLimit :: nat
  parsePath :: "string \<Rightarrow> getter_fn option"

datatype event =
    GetterCall nat
  | CallbackCall nat val val
  | HandlerCall error nat string
  | ConsoleError error
  | Warn string nat
  | NextTick

text \<open>
  The state: the counter \<open>uid\<close>, the watcher objects (a watcher is addressed by the
  identifier its constructor gives it), the subscriber list of every Dep (by Dep
  identifier), the active-watcher stack with \<open>Dep.target\<close> on top, the components,
  the data objects, \<open>seenObjects\<close>, the scheduler's variables, and a record of the
  calls that leave the watcher (user functions, handlers, console, next tick).
\<close>

record state =
  uid :: nat
  watchers :: "nat \<Rightarrow> watcher"
  subs :: "nat \<Rightarrow> nat list"
  targetStack :: "nat list"
  vms :: "nat \<Rightarrow> component"
  objects :: heap
  seenObjects :: "nat set"
  queue :: "nat list"
  has :: "nat set"
  flushing :: bool
  waiting :: bool
  index :: nat
  events :: "event list"
  env :: config

definition emit :: "state \<Rightarrow> event \<Rightarrow> state" where
  "emit st e = st\<lparr>events := events st @ [e]\<rparr>"

subsection \<open>Dep and the active-watcher stack\<close>

text \<open>
  Modelled from the spec: \<open>Dep.addSub\<close> of \<open>observer/dep\<close>, which is not among the
  sources: subscribe adds the watcher if absent and is a no-op if present.
\<close>

definition addSub :: "state \<Rightarrow> nat \<Rightarrow> nat \<Rightarrow> state" where
  "addSub st d w =
     st\<lparr>subs := (subs st)(d := (if w \<in> set (subs st d) then subs st d else subs st d @ [w]))\<rparr>"

text \<open>
  Modelled from the spec: \<open>Dep.removeSub\<close> of \<open>observer/dep\<close> and \<open>remove\<close> of
  \<open>util/index\<close>, which are not among the sources: unsubscribe removes the watcher
  (one occurrence of it, the list holding at most one).
\<close>

definition removeSub :: "state \<Rightarrow> nat \<Rightarrow> nat \<Rightarrow> state" where
  "removeSub st d w = st\<lparr>subs := (subs st)(d := remove1 w (subs st d))\<rparr>"

text \<open>
  Modelled from the spec: \<open>pushTarget\<close>, \<open>popTarget\<close> and \<open>Dep.target\<close> of
  \<open>observer/dep\<close>, which are not among the sources: push and pop maintain a stack,
  the current watcher is its top or none.
\<close>

definition pushTarget :: "state \<Rightarrow> nat \<Rightarrow> state" where
  "pushTarget st w = st\<lparr>targetStack := w # targetStack st\<rparr>"

text \<open>Modelled from the spec: \<open>popTarget\<close> of \<open>observer/dep\<close>, the pop of that stack.\<close>

definition popTarget :: "state \<Rightarrow> state" where
  "popTarget st = st\<lparr>targetStack := tl (targetStack st)\<rparr>"

text \<open>Modelled from the spec: \<open>Dep.target\<close> of \<open>observer/dep\<close>, the top of that stack
  or none.\<close>

definition target :: "state \<Rightarrow> nat option" where
  "target st = (case targetStack st of [] \<Rightarrow> None | w # _ \<Rightarrow> Some w)"

subsection \<open>Watcher.addDep, Watcher.cleanupDeps\<close>

definition addDep :: "state \<Rightarrow> nat \<Rightarrow> nat \<Rightarrow> state" where
  "addDep st w d =
     (let wt = watchers st w in
      if d \<notin> newDepIds wt then
        (let st1 = st\<lparr>watchers := (watchers st)
                     (w := wt\<lparr>newDepIds := insert d (newDepIds wt),
                              newDeps := newDeps wt @ [d]\<rparr>)\<rparr>
         in if d \<notin> depIds wt then addSub st1 d w else st1)
      else st)"

text \<open>
  Modelled from the spec: \<open>Dep.depend\<close> of \<open>observer/dep\<close>, which is not among the
  sources: if a watcher is active it is asked to record a dependency on this Dep;
  no effect when none is.
\<close>

definition dep_depend :: "state \<Rightarrow> nat \<Rightarrow> state" where
  "dep_depend st d = (case target st of None \<Rightarrow> st | Some w \<Rightarrow> addDep st w d)"

text \<open>A sequence of \<open>depend()\<close> calls, in order.\<close>

definition depend_all :: "nat list \<Rightarrow> state \<Rightarrow> state" where
  "depend_all ds st = fold (\<lambda>d s. dep_depend s d) ds st"

definition cleanupDeps :: "state \<Rightarrow> nat \<Rightarrow> state" where
  "cleanupDeps st w =
     (let wt = watchers st w;
          st1 = fold (\<lambda>d s. if d \<notin> newDepIds wt then removeSub s d w else s) (rev (deps wt)) st
      in st1\<lparr>watchers := (watchers st1)
               (w := wt\<lparr>depIds := newDepIds wt, newDepIds := {},
                        deps := newDeps wt, newDeps := []\<rparr>)\<rparr>)"

subsection \<open>handleError\<close>

definition dquote :: string where
  "dquote = [CHR 0x22]"

fun toString_error :: "error \<Rightarrow> string" where
  "toString_error (Error m) = ''Error: '' @ m"

text \<open>
  Modelled from the spec: \<open>warn\<close> of \<open>util/debug\<close>, which is not among the sources:
  a non-fatal report, recorded with its message and component.
\<close>

definition warn :: "state \<Rightarrow> string \<Rightarrow> nat \<Rightarrow> state" where
  "warn st msg v = emit st (Warn msg v)"

text \<open>
  \<open>handleError\<close> calls the configured handler outside any \<open>try\<close>: its call is
  recorded, and what it throws leaves \<open>handleError\<close>. \<open>console.error\<close> is a
  reporting sink: its call is recorded.
\<close>

definition handleError :: "state \<Rightarrow> error \<Rightarrow> nat \<Rightarrow> string \<Rightarrow> (error + unit) \<times> state" where
  "handleError st err v info =
     (case errorHandler (env st) of
        Some h \<Rightarrow>
          (case h err v info of
             None \<Rightarrow> (Inr (), emit st (HandlerCall err v info))
           | Some e' \<Rightarrow> (Inl e', emit st (HandlerCall err v info)))
      | None \<Rightarrow>
          (let st1 = (if \<not> production (env st)
                      then warn st (''Error in '' @ info @ '': '' @ dquote @ toString_error err @ dquote) v
                      else st)
           in if inBrowser (env st) \<and> hasConsole (env st) then (Inr (), emit st1 (ConsoleError err))
              else (Inl err, st1)))"

subsection \<open>traverse\<close>

text \<open>
  \<open>traverse(val)\<close>: \<open>seenObjects.clear()\<close>, then \<open>_traverse(val, seenObjects)\<close>. The
  \<open>depend()\<close> calls of the slot accessors reach the active watcher in the order the
  traversal made them.
\<close>

definition traverse :: "state \<Rightarrow> val \<Rightarrow> (error + unit) \<times> state" where
  "traverse st v =
     (case traverse' (Suc (stackLimit (env st))) (objects st) v \<lparr>seen = {}, treads = [], visited = []\<rparr> of
        (r, t) \<Rightarrow> (r, depend_all (treads t) (st\<lparr>seenObjects := seen t\<rparr>)))"

subsection \<open>Watcher.get, run, update, evaluate, depend, teardown\<close>

text \<open>
  An operation that can throw returns how it completed, \<open>Inl\<close> the error thrown or
  \<open>Inr\<close> the value returned, and the state it leaves. \<open>get\<close> has no \<open>finally\<close>:
  an error leaves it at the throw, before \<open>popTarget()\<close> and \<open>cleanupDeps()\<close>. The
  getter makes its \<open>depend()\<close> calls while the watcher is \<open>Dep.target\<close>, and then
  returns or throws; only a user watcher's getter is called inside \<open>try\<close>.
\<close>

definition get :: "state \<Rightarrow> nat \<Rightarrow> (error + val) \<times> state" where
  "get st w =
     (let st1 = pushTarget st w;
          wt = watchers st1 w;
          called = getter wt (vm wt) (objects st1);
          st2 = depend_all (fst called) (emit st1 (GetterCall w));
          tried =
            (case snd called of
               Inr v \<Rightarrow> (Inr v, st2)
             | Inl e \<Rightarrow>
                 if user wt then
                   (case handleError st2 e (vm wt)
                           (''getter for watcher '' @ dquote @ expression wt @ dquote) of
                      (Inl e', s) \<Rightarrow> (Inl e', s)
                    | (Inr _, s) \<Rightarrow> (Inr VUndefined, s))
                 else (Inl e, st2))
      in case tried of
           (Inl e, s) \<Rightarrow> (Inl e, s)
         | (Inr v, s) \<Rightarrow>
             (case (if deep wt then traverse s v else (Inr (), s)) of
                (Inl e, s') \<Rightarrow> (Inl e, s')
              | (Inr _, s') \<Rightarrow> (Inr v, cleanupDeps (popTarget s') w)))"

text \<open>
  \<open>run\<close> reads \<open>this.active\<close>, calls \<open>get\<close> and compares with \<open>!==\<close>. The call of the
  callback is recorded with its arguments; only a user watcher's callback is called
  inside \<open>try\<close>.
\<close>

definition run :: "state \<Rightarrow> nat \<Rightarrow> (error + unit) \<times> state" where
  "run st w =
     (if active (watchers st w) then
        (case get st w of
           (Inl e, s) \<Rightarrow> (Inl e, s)
         | (Inr v, s) \<Rightarrow>
             (let wt = watchers s w in
              if \<not> strict_eq v (wvalue wt) \<or> isObject v \<or> deep wt then
                (let oldValue = wvalue wt;
                     s1 = s\<lparr>watchers := (watchers s)(w := wt\<lparr>wvalue := v\<rparr>)\<rparr>;
                     s2 = emit s1 (CallbackCall w v oldValue)
                 in case cb wt (vm wt) v oldValue of
                      None \<Rightarrow> (Inr (), s2)
                    | Some e \<Rightarrow>
                        if user wt then
                          handleError s2 e (vm wt)
                            (''callback for watcher '' @ dquote @ expression wt @ dquote)
                        else (Inl e, s2))
              else (Inr (), s)))
      else (Inr (), st))"

text \<open>
  Modelled from the spec: \<open>queueWatcher\<close> of \<open>observer/scheduler\<close>, which is not among
  the sources: if the identifier is not queued, add it to the dedup set; outside a flush
  append the watcher, inside a flush splice it after the cursor at its place by ascending
  identifier among the entries not yet processed; schedule the deferred flush if none
  is pending.
\<close>

definition queueWatcher :: "state \<Rightarrow> nat \<Rightarrow> state" where
  "queueWatcher st w =
     (let i = wid (watchers st w) in
      if i \<in> has st then st
      else
        (let st1 = st\<lparr>has := insert i (has st)\<rparr>;
             st2 =
               (if \<not> flushing st1 then st1\<lparr>queue := queue st1 @ [w]\<rparr>
                else
                  (let done = take (Suc (index st1)) (queue st1);
                       rest = drop (Suc (index st1)) (queue st1);
                       k = length (takeWhile (\<lambda>q. i < wid (watchers st1 q)) (rev rest))
                   in st1\<lparr>queue := done @ take (length rest - k) rest @ [w]
                                      @ drop (length rest - k) rest\<rparr>))
         in if \<not> waiting st2 then emit (st2\<lparr>waiting := True\<rparr>) NextTick else st2))"

text \<open>\<open>update\<close> branches on \<open>lazy\<close>, then on \<open>sync\<close>; \<open>evaluate\<close> stores what \<open>get\<close>
  returns and clears \<open>dirty\<close>; \<open>depend\<close> calls \<open>depend()\<close> on the watcher's Deps, last to
  first; \<open>teardown\<close> does nothing unless the watcher is active.\<close>

definition update :: "state \<Rightarrow> nat \<Rightarrow> (error + unit) \<times> state" where
  "update st w =
     (let wt = watchers st w in
      if lazy wt then (Inr (), st\<lparr>watchers := (watchers st)(w := wt\<lparr>dirty := True\<rparr>)\<rparr>)
      else if sync wt then run st w
      else (Inr (), queueWatcher st w))"

definition evaluate :: "state \<Rightarrow> nat \<Rightarrow> (error + unit) \<times> state" where
  "evaluate st w =
     (case get st w of
        (Inl e, s) \<Rightarrow> (Inl e, s)
      | (Inr v, s) \<Rightarrow>
          (Inr (), s\<lparr>watchers := (watchers s)(w := (watchers s w)\<lparr>wvalue := v, dirty := False\<rparr>)\<rparr>))"

definition depend :: "state \<Rightarrow> nat \<Rightarrow> state" where
  "depend st w = depend_all (rev (deps (watchers st w))) st"

definition teardown :: "state \<Rightarrow> nat \<Rightarrow> state" where
  "teardown st w =
     (let wt = watchers st w in
      if active wt then
        (let c = vms st (vm wt);
             st1 = (if \<not> isBeingDestroyed c
                    then st\<lparr>vms := (vms st)(vm wt := c\<lparr>watchers_vm := remove1 w (watchers_vm c)\<rparr>)\<rparr>
                    else st);
             st2 = fold (\<lambda>d s. removeSub s d w) (rev (deps wt)) st1
         in st2\<lparr>watchers := (watchers st2)(w := (watchers st2 w)\<lparr>active := False\<rparr>)\<rparr>)
      else st)"

subsection \<open>The constructor\<close>

datatype expOrFn = Function string getter_fn | Path string

record options =
  opt_deep :: bool
  opt_user :: bool
  opt_lazy :: bool
  opt_sync :: bool

fun toString :: "expOrFn \<Rightarrow> string" where
  "toString (Function src g) = src"
| "toString (Path p) = p"

definition noop_getter :: getter_fn where
  "noop_getter = (\<lambda>v h. ([], Inr VUndefined))"

text \<open>
  \<open>new Watcher(vm, expOrFn, cb, options)\<close>. The new object is addressed by the
  identifier that \<open>++uid\<close> gives it. A function carries its source text, which
  \<open>toString()\<close> returns. The result is the new watcher, or the error that \<open>get\<close>
  threw.
\<close>

definition constructor ::
  "state \<Rightarrow> nat \<Rightarrow> expOrFn \<Rightarrow> (nat \<Rightarrow> val \<Rightarrow> val \<Rightarrow> error option) \<Rightarrow> options option
     \<Rightarrow> (error + nat) \<times> state" where
  "constructor st v e c opts =
     (let w = Suc (uid st);
          comp = vms st v;
          st1 = st\<lparr>vms := (vms st)(v := comp\<lparr>watchers_vm := watchers_vm comp @ [w]\<rparr>)\<rparr>;
          fl = (case opts of
                  Some p \<Rightarrow> (opt_deep p, opt_user p, opt_lazy p, opt_sync p)
                | None \<Rightarrow> (False, False, False, False));
          st2 = st1\<lparr>uid := Suc (uid st1)\<rparr>;
          ex = (if \<not> production (env st2) then toString e else []);
          resolved =
            (case e of
               Function src g \<Rightarrow> (g, st2)
             | Path p \<Rightarrow>
                 (case parsePath (env st2) p of
                    Some g \<Rightarrow> (g, st2)
                  | None \<Rightarrow>
                      (noop_getter,
                       if \<not> production (env st2) then
                         warn st2
                           (''Failed watching path: '' @ dquote @ p @ dquote @ '' '' @
                            ''Watcher only accepts simple dot-delimited paths. '' @
                            ''For full control, use a function instead.'') v
                       else st2)));
          wt = \<lparr>vm = v, expression = ex, cb = c, wid = uid st2,
                deep = fst fl, user = fst (snd fl), lazy = fst (snd (snd fl)),
                sync = snd (snd (snd fl)), dirty = fst (snd (snd fl)), active = True,
                deps = [], newDeps = [], depIds = {}, newDepIds = {},
                getter = fst resolved, wvalue = VUndefined\<rparr>;
          st3 = (snd resolved)\<lparr>watchers := (watchers (snd resolved))(w := wt)\<rparr>
      in if lazy wt then (Inr w, st3)
         else
           (case get st3 w of
              (Inl err, s) \<Rightarrow> (Inl err, s)
            | (Inr x, s) \<Rightarrow>
                (Inr w, s\<lparr>watchers := (watchers s)(w := (watchers s w)\<lparr>wvalue := x\<rparr>)\<rparr>)))"

subsection \<open>createComputedGetter (instance/state)\<close>

definition computedGetter :: "state \<Rightarrow> nat \<Rightarrow> string \<Rightarrow> (error + val) \<times> state" where
  "computedGetter st v key =
     (case computedWatchers (vms st v) key of
        None \<Rightarrow> (Inr VUndefined, st)
      | Some w \<Rightarrow>
          (case (if dirty (watchers st w) then evaluate st w else (Inr (), st)) of
             (Inl e, s) \<Rightarrow> (Inl e, s)
           | (Inr _, s) \<Rightarrow>
               (let s1 = (if target s \<noteq> None then depend s w else s)
                in (Inr (wvalue (watchers s1 w)), s1))))"


section \<open>Notions used in the statements\<close>

text \<open>Two watcher objects agree on everything but the four dependency fields.\<close>

definition same_fields :: "watcher \<Rightarrow> watcher \<Rightarrow> bool" where
  "same_fields a b \<longleftrightarrow>
     vm a = vm b \<and> expression a = expression b \<and> cb a = cb b \<and> wid a = wid b \<and>
     deep a = deep b \<and> user a = user b \<and> lazy a = lazy b \<and> sync a = sync b \<and>
     dirty a = dirty b \<and> active a = active b \<and> getter a = getter b \<and> wvalue a = wvalue b"

text \<open>
  A step that only tracks dependencies: it may change dependency fields, subscriber
  lists, the active-watcher stack, \<open>seenObjects\<close> and the recorded calls, nothing else.
\<close>

definition tracks_only :: "state \<Rightarrow> state \<Rightarrow> bool" where
  "tracks_only st st' \<longleftrightarrow>
     uid st' = uid st \<and> vms st' = vms st \<and> objects st' = objects st \<and>
     queue st' = queue st \<and> has st' = has st \<and> flushing st' = flushing st \<and>
     waiting st' = waiting st \<and> index st' = index st \<and> env st' = env st \<and>
     (\<forall>x. same_fields (watchers st x) (watchers st' x))"

text \<open>
  What a call of the getter of watcher \<open>w\<close> does in state \<open>st\<close>: the Deps it calls
  \<open>depend()\<close> on, how it completes, and the state when it has completed inside \<open>get\<close>
  (the watcher pushed, the call recorded, the \<open>depend()\<close> calls made).
\<close>

definition getter_reads :: "state \<Rightarrow> nat \<Rightarrow> nat list" where
  "getter_reads st w = fst (getter (watchers st w) (vm (watchers st w)) (objects st))"

definition getter_result :: "state \<Rightarrow> nat \<Rightarrow> error + val" where
  "getter_result st w = snd (getter (watchers st w) (vm (watchers st w)) (objects st))"

definition after_getter :: "state \<Rightarrow> nat \<Rightarrow> state" where
  "after_getter st w = depend_all (getter_reads st w) (emit (pushTarget st w) (GetterCall w))"

definition getter_info :: "state \<Rightarrow> nat \<Rightarrow> string" where
  "getter_info st w = ''getter for watcher '' @ dquote @ expression (watchers st w) @ dquote"

definition callback_info :: "state \<Rightarrow> nat \<Rightarrow> string" where
  "callback_info st w = ''callback for watcher '' @ dquote @ expression (watchers st w) @ dquote"

text \<open>The recorded calls of getters and of callbacks.\<close>

fun is_getter_call :: "event \<Rightarrow> bool" where
  "is_getter_call (GetterCall w) = True"
| "is_getter_call _ = False"

fun is_callback :: "event \<Rightarrow> bool" where
  "is_callback (CallbackCall w a b) = True"
| "is_callback _ = False"

definition getter_calls :: "state \<Rightarrow> event list" where
  "getter_calls st = filter is_getter_call (events st)"

definition callbacks :: "state \<Rightarrow> event list" where
  "callbacks st = filter is_callback (events st)"

text \<open>The development-build warning of \<open>handleError\<close>, and everything a call of
  \<open>handleError\<close> records.\<close>

definition error_warning :: "state \<Rightarrow> error \<Rightarrow> nat \<Rightarrow> string \<Rightarrow> event list" where
  "error_warning st err v info =
     (if production (env st) then []
      else [Warn (''Error in '' @ info @ '': '' @ dquote @ toString_error err @ dquote) v])"

definition error_report :: "state \<Rightarrow> error \<Rightarrow> nat \<Rightarrow> string \<Rightarrow> event list" where
  "error_report st err v info =
     (case errorHandler (env st) of
        Some h \<Rightarrow> [HandlerCall err v info]
      | None \<Rightarrow>
          error_warning st err v info @
          (if inBrowser (env st) \<and> hasConsole (env st) then [ConsoleError err] else []))"

text \<open>The end of \<open>get\<close> once the getter has yielded \<open>v\<close>: the deep traversal,
  \<open>popTarget()\<close>, \<open>cleanupDeps()\<close>.\<close>

definition finish_get :: "state \<Rightarrow> nat \<Rightarrow> val \<Rightarrow> (error + val) \<times> state" where
  "finish_get s w v =
     (case (if deep (watchers s w) then traverse s v else (Inr (), s)) of
        (Inl e, s') \<Rightarrow> (Inl e, s')
      | (Inr _, s') \<Rightarrow> (Inr v, cleanupDeps (popTarget s') w))"

text \<open>
  The elements of a list that are not in \<open>N\<close>, each once, in the order of their first
  occurrence: what \<open>addDep\<close> appends to \<open>newDeps\<close> over a sequence of calls.
\<close>

fun fresh :: "nat set \<Rightarrow> nat list \<Rightarrow> nat list" where
  "fresh N [] = []"
| "fresh N (d # ds) = (if d \<in> N then fresh N ds else d # fresh (insert d N) ds)"

text \<open>
  State \<open>s\<close> is inside an evaluation of watcher \<open>w\<close> that was entered in state \<open>st\<close>
  and has made the \<open>depend()\<close> calls \<open>R\<close> so far.
\<close>

definition collecting :: "state \<Rightarrow> nat \<Rightarrow> nat list \<Rightarrow> state \<Rightarrow> bool" where
  "collecting st w R s \<longleftrightarrow>
     targetStack s = w # targetStack st \<and>
     newDepIds (watchers s w) = newDepIds (watchers st w) \<union> set R \<and>
     newDeps (watchers s w) = newDeps (watchers st w) @ fresh (newDepIds (watchers st w)) R \<and>
     depIds (watchers s w) = depIds (watchers st w) \<and>
     deps (watchers s w) = deps (watchers st w) \<and>
     (\<forall>x. x \<noteq> w \<longrightarrow> watchers s x = watchers st x) \<and>
     (\<forall>d. subs s d =
        (if d \<in> set R \<and> d \<notin> newDepIds (watchers st w) \<and> d \<notin> depIds (watchers st w) \<and>
            w \<notin> set (subs st d)
         then subs st d @ [w] else subs st d))"

text \<open>The \<open>depend()\<close> calls of a deep traversal of \<open>v\<close>, the value the getter yielded,
  and those of a whole evaluation.\<close>

definition traverse_reads :: "state \<Rightarrow> val \<Rightarrow> nat list" where
  "traverse_reads st v =
     treads (snd (traverse' (Suc (stackLimit (env st))) (objects st) v
                    \<lparr>seen = {}, treads = [], visited = []\<rparr>))"

definition yielded :: "state \<Rightarrow> nat \<Rightarrow> val" where
  "yielded st w = (case getter_result st w of Inr v \<Rightarrow> v | Inl e \<Rightarrow> VUndefined)"

definition evaluation_reads :: "state \<Rightarrow> nat \<Rightarrow> nat list" where
  "evaluation_reads st w =
     getter_reads st w @
     (if deep (watchers st w) then traverse_reads st (yielded st w) else [])"

text \<open>
  The parts of the constructor: the message of its warning, the getter it resolves, the
  warning it reports, and an option of the optional \<open>options\<close> (\<open>!!options.lazy\<close>, or
  \<open>false\<close> without options).
\<close>

definition path_warning :: "string \<Rightarrow> string" where
  "path_warning p =
     ''Failed watching path: '' @ dquote @ p @ dquote @ '' '' @
     ''Watcher only accepts simple dot-delimited paths. '' @
     ''For full control, use a function instead.''"

definition resolve_getter :: "config \<Rightarrow> expOrFn \<Rightarrow> getter_fn" where
  "resolve_getter c e =
     (case e of
        Function src g \<Rightarrow> g
      | Path p \<Rightarrow> (case parsePath c p of Some g \<Rightarrow> g | None \<Rightarrow> noop_getter))"

definition resolve_warning :: "config \<Rightarrow> expOrFn \<Rightarrow> nat \<Rightarrow> event list" where
  "resolve_warning c e v =
     (case e of
        Function src g \<Rightarrow> []
      | Path p \<Rightarrow>
          (case parsePath c p of
             Some g \<Rightarrow> []
           | None \<Rightarrow> if production c then [] else [Warn (path_warning p) v]))"

definition flag :: "(options \<Rightarrow> bool) \<Rightarrow> options option \<Rightarrow> bool" where
  "flag f opts = (case opts of Some p \<Rightarrow> f p | None \<Rightarrow> False)"

text \<open>
  The state in which the constructor reaches its last statement: the new watcher is in
  the list of its component, \<open>uid\<close> is incremented, the getter is resolved and the
  object holds all its fields but \<open>value\<close>.
\<close>

definition allocated ::
  "state \<Rightarrow> nat \<Rightarrow> expOrFn \<Rightarrow> (nat \<Rightarrow> val \<Rightarrow> val \<Rightarrow> error option) \<Rightarrow> options option \<Rightarrow> state" where
  "allocated st v e c opts =
     st\<lparr>vms := (vms st)(v := (vms st v)\<lparr>watchers_vm := watchers_vm (vms st v) @ [Suc (uid st)]\<rparr>),
        uid := Suc (uid st),
        events := events st @ resolve_warning (env st) e v,
        watchers := (watchers st)(Suc (uid st) :=
          \<lparr>vm = v, expression = (if production (env st) then [] else toString e), cb = c,
           wid = Suc (uid st), deep = flag opt_deep opts, user = flag opt_user opts,
           lazy = flag opt_lazy opts, sync = flag opt_sync opts, dirty = flag opt_lazy opts,
           active = True, deps = [], newDeps = [], depIds = {}, newDepIds = {},
           getter = resolve_getter (env st) e, wvalue = VUndefined\<rparr>)\<rparr>"

text \<open>
  The identifiers of the Deps of the observers in a heap, and the references to
  extensible objects that no observer wraps: \<open>_traverse\<close> walks these without looking
  at \<open>seen\<close>.
\<close>

definition ob_ids :: "heap \<Rightarrow> nat set" where
  "ob_ids h = {d. \<exists>x \<in> set h. ob x = Some d}"

definition unobserved :: "heap \<Rightarrow> val \<Rightarrow> bool" where
  "unobserved h v \<longleftrightarrow>
     (case v of
        VRef r \<Rightarrow> (case lookup h r of Some x \<Rightarrow> isExtensible x \<and> ob x = None | None \<Rightarrow> False)
      | _ \<Rightarrow> False)"

text \<open>
  Every cycle of references passes through an observed container: the unobserved
  extensible objects can be ranked, by numbers up to \<open>B\<close>, so that each slot of such an
  object that refers to another one refers to one of lower rank.
\<close>

definition ranked :: "heap \<Rightarrow> (nat \<Rightarrow> nat) \<Rightarrow> nat \<Rightarrow> bool" where
  "ranked h rk B \<longleftrightarrow>
     (\<forall>r x. lookup h r = Some x \<and> isExtensible x \<and> ob x = None \<longrightarrow>
        rk r \<le> B \<and>
        (\<forall>s \<in> set (slots x). \<forall>r'. fst s = VRef r' \<and> unobserved h (VRef r') \<longrightarrow> rk r' < rk r))"

text \<open>
  The depth an unobserved object can add below itself, the references to observed
  containers, and the objects a top-level traversal walks, in order.
\<close>

definition weight :: "heap \<Rightarrow> (nat \<Rightarrow> nat) \<Rightarrow> val \<Rightarrow> nat" where
  "weight h rk v = (case v of VRef r \<Rightarrow> if unobserved h v then Suc (rk r) else 0 | _ \<Rightarrow> 0)"

definition observed_ref :: "heap \<Rightarrow> nat \<Rightarrow> bool" where
  "observed_ref h r \<longleftrightarrow> (case lookup h r of Some x \<Rightarrow> ob x \<noteq> None | None \<Rightarrow> False)"

definition traverse_visited :: "state \<Rightarrow> val \<Rightarrow> nat list" where
  "traverse_visited st v =
     visited (snd (traverse' (Suc (stackLimit (env st))) (objects st) v
                     \<lparr>seen = {}, treads = [], visited = []\<rparr>))"

text \<open>
  The objects whose slots have been walked so far and that an observer wraps have their
  Dep identifier in \<open>seen\<close>, and none of them has been walked twice.
\<close>

definition once_each :: "heap \<Rightarrow> tstate \<Rightarrow> bool" where
  "once_each h t \<longleftrightarrow>
     (\<forall>r \<in> set (visited t). \<forall>x d. lookup h r = Some x \<and> ob x = Some d \<longrightarrow> d \<in> seen t) \<and>
     distinct (filter (observed_ref h) (visited t))"

section \<open>Concrete configurations\<close>

definition ex_config :: config where
  "ex_config = \<lparr>errorHandler = None, inBrowser = True, hasConsole = True,
                 production = False, stackLimit = 100, parsePath = (\<lambda>p. None)\<rparr>"

text \<open>A handler that returns and a handler that throws.\<close>

definition quiet_handler :: "error \<Rightarrow> nat \<Rightarrow> string \<Rightarrow> error option" where
  "quiet_handler = (\<lambda>e v i. None)"

definition throwing_handler :: "error \<Rightarrow> nat \<Rightarrow> string \<Rightarrow> error option" where
  "throwing_handler = (\<lambda>e v i. Some (Error ''handler''))"

definition ex_cb :: "nat \<Rightarrow> val \<Rightarrow> val \<Rightarrow> error option" where
  "ex_cb = (\<lambda>v a b. None)"

definition ex_watcher :: watcher where
  "ex_watcher = \<lparr>vm = 0, expression = [], cb = ex_cb, wid = 0, deep = False, user = False,
                  lazy = False, sync = False, dirty = False, active = False, deps = [],
                  newDeps = [], depIds = {}, newDepIds = {}, getter = noop_getter,
                  wvalue = VUndefined\<rparr>"

definition ex_component :: component where
  "ex_component = \<lparr>watchers_vm = [], isBeingDestroyed = False, computedWatchers = (\<lambda>k. None)\<rparr>"

definition ex_state :: state where
  "ex_state = \<lparr>uid = 0, watchers = (\<lambda>w. ex_watcher), subs = (\<lambda>d. []), targetStack = [],
                vms = (\<lambda>v. ex_component), objects = [], seenObjects = {}, queue = [],
                has = {}, flushing = False, waiting = False, index = 0, events = [],
                env = ex_config\<rparr>"

text \<open>A watcher whose getter yields NaN, built by the constructor, which evaluates it once.\<close>

definition nan_getter :: getter_fn where
  "nan_getter = (\<lambda>v h. ([], Inr (VNum qNaN)))"

definition nan_state :: state where
  "nan_state = snd (constructor ex_state 0 (Function ''nan'' nan_getter) ex_cb None)"

text \<open>A watcher whose getter yields the number 1.\<close>

definition one_getter :: getter_fn where
  "one_getter = (\<lambda>v h. ([], Inr (VNum 0x3FF0000000000000)))"

definition one_state :: state where
  "one_state = snd (constructor ex_state 0 (Function ''one'' one_getter) ex_cb None)"

text \<open>A watcher that is neither lazy nor sync, built by the constructor and torn down.\<close>

definition torn_state :: state where
  "torn_state = teardown (snd (constructor ex_state 0 (Function ''one'' one_getter) ex_cb None)) 1"

text \<open>A lazy watcher, built by the constructor, evaluated once and torn down.\<close>

definition lazy_options :: options where
  "lazy_options = \<lparr>opt_deep = False, opt_user = False, opt_lazy = True, opt_sync = False\<rparr>"

definition lazy_state :: state where
  "lazy_state = snd (constructor ex_state 0 (Function ''one'' one_getter) ex_cb (Some lazy_options))"

definition torn_lazy_state :: state where
  "torn_lazy_state = teardown (snd (evaluate lazy_state 1)) 1"

definition sync_options :: options where
  "sync_options = \<lparr>opt_deep = False, opt_user = False, opt_lazy = False, opt_sync = True\<rparr>"

definition sync_state :: state where
  "sync_state = snd (constructor ex_state 0 (Function ''one'' one_getter) ex_cb (Some sync_options))"

text \<open>A watcher whose getter reads Dep 1, Dep 2 and Dep 1 again, built by the constructor.\<close>

definition two_getter :: getter_fn where
  "two_getter = (\<lambda>v h. ([1, 2, 1], Inr (VNum 0x3FF0000000000000)))"

definition two_state :: state where
  "two_state = snd (constructor ex_state 0 (Function ''two'' two_getter) ex_cb None)"

text \<open>
  A watcher whose getter reads Dep 1, Dep 2 and Dep 1 again while there is no data and
  Dep 2 and Dep 3 once there is some, built by the constructor; then some data appears.
\<close>

definition leaf_obj :: obj where
  "leaf_obj = \<lparr>isArray = False, isExtensible = True, ob = None, slots = []\<rparr>"

definition cond_getter :: getter_fn where
  "cond_getter = (\<lambda>v h. if h = [] then ([1, 2, 1], Inr (VNum 0x3FF0000000000000))
                         else ([2, 3], Inr (VNum 0x3FF0000000000000)))"

definition cond_state :: state where
  "cond_state =
     (snd (constructor ex_state 0 (Function ''cond'' cond_getter) ex_cb None))
       \<lparr>objects := [leaf_obj]\<rparr>"

text \<open>
  A lazy watcher whose getter reads Dep 1 and throws while there is no data, and reads
  Dep 2 and returns once there is some. It is built by the constructor and evaluated,
  which throws; then some data appears.
\<close>

definition flaky_getter :: getter_fn where
  "flaky_getter = (\<lambda>v h. if h = [] then ([1], Inl (Error ''not ready''))
                          else ([2], Inr (VNum 0x3FF0000000000000)))"

definition flaky_state :: state where
  "flaky_state =
     snd (constructor ex_state 0 (Function ''flaky'' flaky_getter) ex_cb (Some lazy_options))"

definition aborted_state :: state where
  "aborted_state = (snd (evaluate flaky_state 1))\<lparr>objects := [leaf_obj]\<rparr>"

text \<open>
  A lazy user watcher whose getter reads Dep 1 and throws, built by the constructor in
  a browser with a console, and the same outside a browser; no handler is configured.
\<close>

definition boom_getter :: getter_fn where
  "boom_getter = (\<lambda>v h. ([1], Inl (Error ''boom'')))"

definition user_lazy_options :: options where
  "user_lazy_options = \<lparr>opt_deep = False, opt_user = True, opt_lazy = True, opt_sync = False\<rparr>"

definition boom_state :: state where
  "boom_state =
     snd (constructor ex_state 0 (Function ''boom'' boom_getter) ex_cb (Some user_lazy_options))"

definition boom_node_state :: state where
  "boom_node_state =
     snd (constructor (ex_state\<lparr>env := ex_config\<lparr>inBrowser := False\<rparr>\<rparr>) 0
            (Function ''boom'' boom_getter) ex_cb (Some user_lazy_options))"

text \<open>The same watcher with a handler configured that returns, and with one that throws.\<close>

definition boom_handled_state :: state where
  "boom_handled_state =
     snd (constructor (ex_state\<lparr>env := ex_config\<lparr>errorHandler := Some quiet_handler\<rparr>\<rparr>) 0
            (Function ''boom'' boom_getter) ex_cb (Some user_lazy_options))"

definition boom_thrower_state :: state where
  "boom_thrower_state =
     snd (constructor (ex_state\<lparr>env := ex_config\<lparr>errorHandler := Some throwing_handler\<rparr>\<rparr>) 0
            (Function ''boom'' boom_getter) ex_cb (Some user_lazy_options))"

text \<open>A deep user watcher whose callback throws, built by the constructor.\<close>

definition boom_cb :: "nat \<Rightarrow> val \<Rightarrow> val \<Rightarrow> error option" where
  "boom_cb = (\<lambda>v a b. Some (Error ''cb''))"

definition user_deep_options :: options where
  "user_deep_options = \<lparr>opt_deep = True, opt_user = True, opt_lazy = False, opt_sync = False\<rparr>"

definition cb_state :: state where
  "cb_state =
     snd (constructor ex_state 0 (Function ''one'' one_getter) boom_cb (Some user_deep_options))"

text \<open>The same watcher without the user flag.\<close>

definition deep_options :: options where
  "deep_options = \<lparr>opt_deep = True, opt_user = False, opt_lazy = False, opt_sync = False\<rparr>"

definition cb_internal_state :: state where
  "cb_internal_state =
     snd (constructor ex_state 0 (Function ''one'' one_getter) boom_cb (Some deep_options))"

text \<open>A production build in which no path parses.\<close>

definition prod_state :: state where
  "prod_state = ex_state\<lparr>env := ex_config\<lparr>production := True\<rparr>\<rparr>"

text \<open>
  Three objects in a cycle: object 0, observed, refers to object 1 and holds a number;
  object 1, an observed array, refers to object 2; object 2, which no observer wraps,
  refers back to object 0.
\<close>

definition cyc_heap :: heap where
  "cyc_heap =
     [\<lparr>isArray = False, isExtensible = True, ob = Some 10,
       slots = [(VRef 1, [4]), (VNum 0x3FF0000000000000, [5])]\<rparr>,
      \<lparr>isArray = True, isExtensible = True, ob = Some 11, slots = [(VRef 2, [])]\<rparr>,
      \<lparr>isArray = False, isExtensible = True, ob = None, slots = [(VRef 0, [])]\<rparr>]"

definition cyc_state :: state where
  "cyc_state = ex_state\<lparr>objects := cyc_heap\<rparr>"

text \<open>An extensible object that no observer wraps and that refers to itself.\<close>

definition self_heap :: heap where
  "self_heap = [\<lparr>isArray = False, isExtensible = True, ob = None, slots = [(VRef 0, [])]\<rparr>]"

section \<open>Frame lemmas\<close>

lemma same_fields_refl: "same_fields a a" by (simp add: same_fields_def)
lemma same_fields_trans: "same_fields a b \<Longrightarrow> same_fields b c \<Longrightarrow> same_fields a c" by (simp add: same_fields_def)

lemma tracks_only_refl: "tracks_only st st" by (simp add: tracks_only_def same_fields_refl)
lemma tracks_only_trans: "tracks_only a b \<Longrightarrow> tracks_only b c \<Longrightarrow> tracks_only a c"
  unfolding tracks_only_def by (auto intro: same_fields_trans)

lemma tracks_only_emit: "tracks_only st (emit st e)" by (simp add: tracks_only_def emit_def same_fields_refl)
lemma tracks_only_addSub: "tracks_only st (addSub st d w)" by (simp add: tracks_only_def addSub_def same_fields_refl)
lemma tracks_only_removeSub: "tracks_only st (removeSub st d w)" by (simp add: tracks_only_def removeSub_def same_fields_refl)
lemma tracks_only_pushTarget: "tracks_only st (pushTarget st w)" by (simp add: tracks_only_def pushTarget_def same_fields_refl)
lemma tracks_only_popTarget: "tracks_only st (popTarget st)" by (simp add: tracks_only_def popTarget_def same_fields_refl)

lemma tracks_only_addDep: "tracks_only st (addDep st w d)"
  by (simp add: tracks_only_def addDep_def addSub_def Let_def same_fields_def)

lemma tracks_only_dep_depend: "tracks_only st (dep_depend st d)"
  by (simp add: dep_depend_def tracks_only_refl tracks_only_addDep split: option.splits)

lemma tracks_only_depend_all: "tracks_only st (depend_all ds st)"
proof (induction ds arbitrary: st)
  case Nil show ?case by (simp add: depend_all_def tracks_only_refl)
next
  case (Cons d ds)
  have "tracks_only (dep_depend st d) (depend_all ds (dep_depend st d))" by (rule Cons.IH)
  then show ?case using tracks_only_dep_depend[of st d] 
    by (auto simp: depend_all_def intro: tracks_only_trans)
qed

lemma tracks_only_fold [rule_format]:
  "(\<forall>s x. tracks_only s (f x s)) \<longrightarrow> tracks_only st (fold f xs st)"
proof (induction xs arbitrary: st)
  case Nil show ?case by (simp add: tracks_only_refl)
next
  case (Cons x xs)
  then show ?case by (auto intro: tracks_only_trans)
qed

lemma tracks_only_cleanupDeps: "tracks_only st (cleanupDeps st w)"
proof -
  let ?wt = "watchers st w"
  let ?s1 = "fold (\<lambda>d s. if d \<notin> newDepIds ?wt then removeSub s d w else s) (rev (deps ?wt)) st"
  have a: "tracks_only st ?s1"
    by (rule tracks_only_fold) (simp add: tracks_only_refl tracks_only_removeSub)
  have b: "tracks_only ?s1 (cleanupDeps st w)"
    using a by (simp add: cleanupDeps_def Let_def tracks_only_def same_fields_def)
  from a b show ?thesis by (rule tracks_only_trans)
qed

lemma tracks_only_warn: "tracks_only st (warn st m v)" by (simp add: warn_def tracks_only_emit)

lemma tracks_only_handleError: "tracks_only st (snd (handleError st e v i))"
  by (auto simp: handleError_def Let_def tracks_only_emit tracks_only_warn tracks_only_refl
      split: option.splits
      intro: tracks_only_trans[OF tracks_only_warn tracks_only_emit])

lemma tracks_only_traverse: "tracks_only st (snd (traverse st v))"
proof -
  have "tracks_only st (st\<lparr>seenObjects := S\<rparr>)" for S
    by (simp add: tracks_only_def same_fields_refl)
  then show ?thesis
    by (auto simp: traverse_def split: prod.splits intro: tracks_only_trans tracks_only_depend_all)
qed


lemma step_emit: "tracks_only a s \<Longrightarrow> tracks_only a (emit s e)" by (blast intro: tracks_only_trans tracks_only_emit)
lemma step_pushTarget: "tracks_only a s \<Longrightarrow> tracks_only a (pushTarget s w)" by (blast intro: tracks_only_trans tracks_only_pushTarget)
lemma step_popTarget: "tracks_only a s \<Longrightarrow> tracks_only a (popTarget s)" by (blast intro: tracks_only_trans tracks_only_popTarget)
lemma step_depend_all: "tracks_only a s \<Longrightarrow> tracks_only a (depend_all ds s)" by (blast intro: tracks_only_trans tracks_only_depend_all)
lemma step_cleanupDeps: "tracks_only a s \<Longrightarrow> tracks_only a (cleanupDeps s w)" by (blast intro: tracks_only_trans tracks_only_cleanupDeps)
lemma step_handleError: "tracks_only a s \<Longrightarrow> handleError s e v i = (r, s') \<Longrightarrow> tracks_only a s'"
  using tracks_only_handleError[of s e v i] by (auto intro: tracks_only_trans)
lemma step_traverse: "tracks_only a s \<Longrightarrow> traverse s v = (r, s') \<Longrightarrow> tracks_only a s'"
  using tracks_only_traverse[of s v] by (auto intro: tracks_only_trans)


lemma get_unfold:
  "get st w =
     (case (case getter_result st w of
              Inr v \<Rightarrow> (Inr v, after_getter st w)
            | Inl e \<Rightarrow>
                if user (watchers st w) then
                  (case handleError (after_getter st w) e (vm (watchers st w)) (getter_info st w) of
                     (Inl e', s) \<Rightarrow> (Inl e', s)
                   | (Inr _, s) \<Rightarrow> (Inr VUndefined, s))
                else (Inl e, after_getter st w)) of
        (Inl e, s) \<Rightarrow> (Inl e, s)
      | (Inr v, s) \<Rightarrow>
          (case (if deep (watchers st w) then traverse s v else (Inr (), s)) of
             (Inl e, s') \<Rightarrow> (Inl e, s')
           | (Inr _, s') \<Rightarrow> (Inr v, cleanupDeps (popTarget s') w)))"
proof -
  have [simp]: "watchers (pushTarget st w) = watchers st" "objects (pushTarget st w) = objects st"
    by (simp_all add: pushTarget_def)
  show ?thesis
    unfolding get_def Let_def getter_result_def getter_reads_def after_getter_def getter_info_def
    by (simp cong: sum.case_cong prod.case_cong if_cong)
qed

lemma tracks_only_after_getter: "tracks_only st (after_getter st w)"
  unfolding after_getter_def
  by (intro step_depend_all step_emit step_pushTarget tracks_only_refl)

lemma tracks_only_get: "tracks_only st (snd (get st w))"
proof -
  note a = tracks_only_after_getter[of st w]
  show ?thesis
    unfolding get_unfold using a
    by (auto split: sum.splits prod.splits if_splits
        intro!: step_cleanupDeps step_popTarget
        intro: step_traverse step_handleError)
qed

lemma step_get: "tracks_only a s \<Longrightarrow> get s w = (r, s') \<Longrightarrow> tracks_only a s'"
  using tracks_only_get[of s w] by (auto intro: tracks_only_trans)

subsection \<open>What the operations record\<close>

lemma events_addDep: "events (addDep st w d) = events st"
  by (simp add: addDep_def addSub_def Let_def)

lemma events_dep_depend: "events (dep_depend st d) = events st"
  by (simp add: dep_depend_def events_addDep split: option.splits)

lemma events_depend_all: "events (depend_all ds st) = events st"
  unfolding depend_all_def
  by (induction ds arbitrary: st) (simp_all add: events_dep_depend)

lemma events_cleanupDeps: "events (cleanupDeps st w) = events st"
proof -
  have "events (fold (\<lambda>d s. if P d then removeSub s d w else s) ds st) = events st" for P ds
    by (induction ds arbitrary: st) (simp_all add: removeSub_def)
  then show ?thesis by (simp add: cleanupDeps_def Let_def)
qed

lemma events_popTarget: "events (popTarget st) = events st"
  by (simp add: popTarget_def)

lemma events_traverse: "events (snd (traverse st v)) = events st"
  by (simp add: traverse_def events_depend_all split: prod.splits)

lemma events_after_getter: "events (after_getter st w) = events st @ [GetterCall w]"
  by (simp add: after_getter_def events_depend_all emit_def pushTarget_def)

lemma handleError_eq:
  "handleError st err v info =
     (case errorHandler (env st) of
        Some h \<Rightarrow>
          ((case h err v info of None \<Rightarrow> Inr () | Some e' \<Rightarrow> Inl e'),
           st\<lparr>events := events st @ [HandlerCall err v info]\<rparr>)
      | None \<Rightarrow>
          if inBrowser (env st) \<and> hasConsole (env st)
          then (Inr (), st\<lparr>events := events st @ error_warning st err v info @ [ConsoleError err]\<rparr>)
          else (Inl err, st\<lparr>events := events st @ error_warning st err v info\<rparr>))"
  by (simp add: handleError_def Let_def emit_def warn_def error_warning_def split: option.splits)

lemma handleError_snd:
  "snd (handleError st err v info) = st\<lparr>events := events st @ error_report st err v info\<rparr>"
  by (simp add: handleError_eq error_report_def split: option.splits)

lemma handleError_returns:
  "(fst (handleError st err v info) = Inr ()) =
     (case errorHandler (env st) of
        Some h \<Rightarrow> h err v info = None
      | None \<Rightarrow> inBrowser (env st) \<and> hasConsole (env st))"
  by (simp add: handleError_eq split: option.splits)

lemma handleError_throws:
  "(fst (handleError st err v info) = Inl e') =
     (case errorHandler (env st) of
        Some h \<Rightarrow> h err v info = Some e'
      | None \<Rightarrow> \<not> (inBrowser (env st) \<and> hasConsole (env st)) \<and> e' = err)"
  by (auto simp: handleError_eq split: option.splits)

lemma error_report_filters:
  "filter is_getter_call (error_report st e v i) = []"
  "filter is_callback (error_report st e v i) = []"
  by (simp_all add: error_report_def error_warning_def split: option.splits)

lemma getter_calls_handleError: "getter_calls (snd (handleError st e v i)) = getter_calls st"
  by (simp add: handleError_snd getter_calls_def error_report_filters)

lemma callbacks_handleError: "callbacks (snd (handleError st e v i)) = callbacks st"
  by (simp add: handleError_snd callbacks_def error_report_filters)


text \<open>The four ways through \<open>get\<close>.\<close>

lemma same_fields_after_getter: "same_fields (watchers st x) (watchers (after_getter st w) x)"
  using tracks_only_after_getter[of st w] by (simp add: tracks_only_def)

lemma deep_after_getter: "deep (watchers (after_getter st w) x) = deep (watchers st x)"
  using same_fields_after_getter[of st x w] by (simp add: same_fields_def)

lemma deep_handleError: "deep (watchers (snd (handleError s e v i)) x) = deep (watchers s x)"
  by (simp add: handleError_snd)

lemma get_returned:
  "getter_result st w = Inr v \<Longrightarrow> get st w = finish_get (after_getter st w) w v"
  by (simp add: get_unfold finish_get_def deep_after_getter)

lemma get_thrown_internal:
  "getter_result st w = Inl e \<Longrightarrow> \<not> user (watchers st w) \<Longrightarrow> get st w = (Inl e, after_getter st w)"
  by (simp add: get_unfold)

lemma get_thrown_user:
  assumes "getter_result st w = Inl e" and "user (watchers st w)"
  shows "get st w =
     (case handleError (after_getter st w) e (vm (watchers st w)) (getter_info st w) of
        (Inl e', s) \<Rightarrow> (Inl e', s)
      | (Inr u, s) \<Rightarrow> finish_get s w VUndefined)"
proof (cases "handleError (after_getter st w) e (vm (watchers st w)) (getter_info st w)")
  case (Pair r s)
  have d: "deep (watchers s w) = deep (watchers st w)"
    using deep_handleError[of "after_getter st w" e "vm (watchers st w)" "getter_info st w" w] Pair
    by (simp add: deep_after_getter)
  show ?thesis
    using assms Pair d by (cases r) (simp_all add: get_unfold finish_get_def)
qed

text \<open>A property of the state after \<open>get\<close>, from its steps.\<close>

lemma finish_get_rule:
  assumes "P s"
    and "\<And>s v. P s \<Longrightarrow> P (snd (traverse s v))"
    and "\<And>s. P s \<Longrightarrow> P (cleanupDeps (popTarget s) w)"
  shows "P (snd (finish_get s w v))"
proof (cases "deep (watchers s w)")
  case False
  then show ?thesis using assms(1,3) by (simp add: finish_get_def)
next
  case True
  obtain r s' where t: "traverse s v = (r, s')" by (cases "traverse s v")
  have "P s'" using assms(2)[OF assms(1), of v] t by simp
  then show ?thesis using True t assms(3) by (cases r) (simp_all add: finish_get_def)
qed

lemma get_rule:
  assumes "P (after_getter st w)"
    and "\<And>s e v i. P s \<Longrightarrow> P (snd (handleError s e v i))"
    and "\<And>s v. P s \<Longrightarrow> P (snd (traverse s v))"
    and "\<And>s. P s \<Longrightarrow> P (cleanupDeps (popTarget s) w)"
  shows "P (snd (get st w))"
proof (cases "getter_result st w")
  case (Inr v)
  then show ?thesis using finish_get_rule[of P, OF assms(1) assms(3) assms(4)]
    by (simp add: get_returned)
next
  case (Inl e)
  show ?thesis
  proof (cases "user (watchers st w)")
    case False
    then show ?thesis using Inl assms(1) by (simp add: get_thrown_internal)
  next
    case True
    obtain r s where h: "handleError (after_getter st w) e (vm (watchers st w)) (getter_info st w) = (r, s)"
      by (cases "handleError (after_getter st w) e (vm (watchers st w)) (getter_info st w)")
    have ps: "P s" using assms(2)[OF assms(1), of e "vm (watchers st w)" "getter_info st w"] h by simp
    show ?thesis
      using Inl True h ps finish_get_rule[of P s w VUndefined, OF ps assms(3) assms(4)]
      by (cases r) (simp_all add: get_thrown_user)
  qed
qed

lemma getter_calls_get: "getter_calls (snd (get st w)) = getter_calls st @ [GetterCall w]"
proof (rule get_rule)
  show "getter_calls (after_getter st w) = getter_calls st @ [GetterCall w]"
    by (simp add: getter_calls_def events_after_getter)
qed (simp_all add: getter_calls_handleError,
     simp_all add: getter_calls_def events_traverse events_cleanupDeps events_popTarget)

lemma callbacks_get: "callbacks (snd (get st w)) = callbacks st"
proof (rule get_rule)
  show "callbacks (after_getter st w) = callbacks st"
    by (simp add: callbacks_def events_after_getter)
qed (simp_all add: callbacks_handleError,
     simp_all add: callbacks_def events_traverse events_cleanupDeps events_popTarget)

lemma same_fields_get: "same_fields (watchers st x) (watchers (snd (get st w)) x)"
  using tracks_only_get[of st w] by (simp add: tracks_only_def)

section \<open>Evaluating concrete states\<close>

lemmas eval_defs =
  constructor_def get_def run_def update_def evaluate_def teardown_def pushTarget_def
  popTarget_def emit_def depend_all_def dep_depend_def target_def addDep_def addSub_def
  removeSub_def cleanupDeps_def handleError_def warn_def traverse_def queueWatcher_def
  ex_state_def ex_config_def ex_component_def ex_watcher_def ex_cb_def noop_getter_def
  getter_calls_def callbacks_def Let_def

lemma is_nan_qNaN: "is_nan qNaN"
  by (simp add: is_nan_def qNaN_def)

section \<open>handleError\<close>

text \<open>
  C9, amended. Every error passed to \<open>handleError\<close> is routed in one of three ways.
  With a global handler configured, the handler is called with the error, the component
  and the context label, and \<open>handleError\<close> throws exactly what the handler throws:
  nothing when the handler returns. With none configured, the error is logged with
  \<open>console.error\<close> and nothing is thrown in a browser in which \<open>console\<close> is
  defined, and it is thrown again otherwise: outside a browser, and in a browser
  without \<open>console\<close>. Nothing else of the state changes; the development build adds
  its warning before logging or throwing.
\<close>

theorem handleError_routing:
  "(\<forall>h. errorHandler (env st) = Some h \<longrightarrow>
      handleError st err v info =
        ((case h err v info of None \<Rightarrow> Inr () | Some e' \<Rightarrow> Inl e'),
         st\<lparr>events := events st @ [HandlerCall err v info]\<rparr>)) \<and>
   (errorHandler (env st) = None \<and> inBrowser (env st) \<and> hasConsole (env st) \<longrightarrow>
      handleError st err v info =
        (Inr (), st\<lparr>events := events st @ error_warning st err v info @ [ConsoleError err]\<rparr>)) \<and>
   (errorHandler (env st) = None \<and> \<not> (inBrowser (env st) \<and> hasConsole (env st)) \<longrightarrow>
      handleError st err v info =
        (Inl err, st\<lparr>events := events st @ error_warning st err v info\<rparr>))"
  by (simp add: handleError_def Let_def emit_def warn_def error_warning_def split: option.splits)

theorem handleError_routing_witness:
  "(errorHandler (env (ex_state\<lparr>env := ex_config\<lparr>errorHandler := Some quiet_handler\<rparr>\<rparr>))
      = Some quiet_handler \<and>
    fst (handleError (ex_state\<lparr>env := ex_config\<lparr>errorHandler := Some quiet_handler\<rparr>\<rparr>)
           (Error ''boom'') 3 ''render'')
      = Inr () \<and>
    events (snd (handleError (ex_state\<lparr>env := ex_config\<lparr>errorHandler := Some quiet_handler\<rparr>\<rparr>)
                   (Error ''boom'') 3 ''render''))
      = [HandlerCall (Error ''boom'') 3 ''render'']) \<and>
   (errorHandler (env (ex_state\<lparr>env := ex_config\<lparr>errorHandler := Some throwing_handler\<rparr>\<rparr>))
      = Some throwing_handler \<and>
    fst (handleError (ex_state\<lparr>env := ex_config\<lparr>errorHandler := Some throwing_handler\<rparr>\<rparr>)
           (Error ''boom'') 3 ''render'')
      = Inl (Error ''handler'') \<and>
    events (snd (handleError (ex_state\<lparr>env := ex_config\<lparr>errorHandler := Some throwing_handler\<rparr>\<rparr>)
                   (Error ''boom'') 3 ''render''))
      = [HandlerCall (Error ''boom'') 3 ''render'']) \<and>
   (fst (handleError (ex_state\<lparr>env := ex_config\<lparr>production := True\<rparr>\<rparr>) (Error ''boom'') 3 ''render'')
      = Inr () \<and>
    events (snd (handleError (ex_state\<lparr>env := ex_config\<lparr>production := True\<rparr>\<rparr>)
                   (Error ''boom'') 3 ''render''))
      = [ConsoleError (Error ''boom'')]) \<and>
   (fst (handleError (ex_state\<lparr>env := ex_config\<lparr>inBrowser := False, production := True\<rparr>\<rparr>)
           (Error ''boom'') 3 ''render'')
      = Inl (Error ''boom'') \<and>
    events (snd (handleError (ex_state\<lparr>env := ex_config\<lparr>inBrowser := False, production := True\<rparr>\<rparr>)
                   (Error ''boom'') 3 ''render''))
      = [])"
  using
    handleError_routing [of "ex_state\<lparr>env := ex_config\<lparr>errorHandler := Some quiet_handler\<rparr>\<rparr>"
      "Error ''boom''" 3 "''render''"]
    handleError_routing [of "ex_state\<lparr>env := ex_config\<lparr>errorHandler := Some throwing_handler\<rparr>\<rparr>"
      "Error ''boom''" 3 "''render''"]
    handleError_routing [of "ex_state\<lparr>env := ex_config\<lparr>production := True\<rparr>\<rparr>"
      "Error ''boom''" 3 "''render''"]
    handleError_routing [of "ex_state\<lparr>env := ex_config\<lparr>inBrowser := False, production := True\<rparr>\<rparr>"
      "Error ''boom''" 3 "''render''"]
  by (simp add: ex_state_def ex_config_def error_warning_def quiet_handler_def
      throwing_handler_def)

text \<open>
  C9 as stated fails twice. In a browser in which \<open>console\<close> is not defined and with
  no handler configured, the error is not logged but thrown again. With a handler
  configured that throws, \<open>handleError\<close> throws.
\<close>

theorem handleError_routing_counterexample:
  "errorHandler (env (ex_state\<lparr>env := ex_config\<lparr>hasConsole := False\<rparr>\<rparr>)) = None \<and>
   inBrowser (env (ex_state\<lparr>env := ex_config\<lparr>hasConsole := False\<rparr>\<rparr>)) \<and>
   handleError (ex_state\<lparr>env := ex_config\<lparr>hasConsole := False, production := True\<rparr>\<rparr>)
       (Error ''boom'') 3 ''render'' =
     (Inl (Error ''boom''), ex_state\<lparr>env := ex_config\<lparr>hasConsole := False, production := True\<rparr>\<rparr>) \<and>
   fst (handleError (ex_state\<lparr>env := ex_config\<lparr>hasConsole := False\<rparr>\<rparr>) (Error ''boom'') 3 ''render'')
     = Inl (Error ''boom'') \<and>
   fst (handleError (ex_state\<lparr>env := ex_config\<lparr>errorHandler := Some throwing_handler\<rparr>\<rparr>)
          (Error ''boom'') 3 ''render'')
     = Inl (Error ''handler'')"
  by (simp add: handleError_def Let_def emit_def warn_def ex_state_def ex_config_def
      throwing_handler_def)

section \<open>Watcher.run\<close>

lemma run_returned:
  assumes "active (watchers st w)" and "get st w = (Inr v, s)"
  shows "run st w =
     (if \<not> strict_eq v (wvalue (watchers st w)) \<or> isObject v \<or> deep (watchers st w) then
        (let s2 = emit (s\<lparr>watchers := (watchers s)(w := (watchers s w)\<lparr>wvalue := v\<rparr>)\<rparr>)
                    (CallbackCall w v (wvalue (watchers st w)))
         in case cb (watchers st w) (vm (watchers st w)) v (wvalue (watchers st w)) of
              None \<Rightarrow> (Inr (), s2)
            | Some e \<Rightarrow>
                if user (watchers st w)
                then handleError s2 e (vm (watchers st w)) (callback_info st w)
                else (Inl e, s2))
      else (Inr (), s))"
proof -
  have "same_fields (watchers st w) (watchers s w)"
    using same_fields_get[of st w w] assms(2) by simp
  then show ?thesis
    using assms
    by (simp add: run_def Let_def same_fields_def callback_info_def cong: option.case_cong if_cong)
qed

text \<open>
  C2, amended. When \<open>run\<close> of an active watcher re-evaluates and \<open>get\<close> returns \<open>v\<close>,
  the callback is called, once and with (\<open>v\<close>, stored value), and \<open>v\<close> is stored, if and
  only if \<open>v\<close> differs from the stored value by \<open>!==\<close>, or \<open>v\<close> is an object or array,
  or the watcher is deep; otherwise \<open>run\<close> ends where \<open>get\<close> ended. So for a scalar
  value of a watcher that is not deep the callback does not fire when the new value
  strictly equals the old one. NaN is not strictly equal to itself: when the new value
  is NaN the callback fires, also when the old value is NaN.
\<close>

theorem run_callback_condition:
  assumes "active (watchers st w)" and "get st w = (Inr v, s)"
  shows
    "callbacks (snd (run st w)) =
       callbacks st @
         (if \<not> strict_eq v (wvalue (watchers st w)) \<or> isObject v \<or> deep (watchers st w)
          then [CallbackCall w v (wvalue (watchers st w))] else []) \<and>
     (\<not> strict_eq v (wvalue (watchers st w)) \<or> isObject v \<or> deep (watchers st w) \<longrightarrow>
        wvalue (watchers (snd (run st w)) w) = v) \<and>
     (\<not> (\<not> strict_eq v (wvalue (watchers st w)) \<or> isObject v \<or> deep (watchers st w)) \<longrightarrow>
        run st w = (Inr (), s)) \<and>
     (\<not> isObject v \<and> \<not> deep (watchers st w) \<and> strict_eq v (wvalue (watchers st w)) \<longrightarrow>
        callbacks (snd (run st w)) = callbacks st) \<and>
     ((\<exists>a. v = VNum a \<and> is_nan a) \<longrightarrow>
        callbacks (snd (run st w)) = callbacks st @ [CallbackCall w v (wvalue (watchers st w))])"
proof -
  let ?old = "wvalue (watchers st w)"
  let ?fire = "\<not> strict_eq v ?old \<or> isObject v \<or> deep (watchers st w)"
  have cs: "callbacks s = callbacks st"
    using callbacks_get[of st w] assms(2) by simp
  have r: "run st w = (if ?fire then
        (let s2 = emit (s\<lparr>watchers := (watchers s)(w := (watchers s w)\<lparr>wvalue := v\<rparr>)\<rparr>)
                    (CallbackCall w v ?old)
         in case cb (watchers st w) (vm (watchers st w)) v ?old of
              None \<Rightarrow> (Inr (), s2)
            | Some e \<Rightarrow>
                if user (watchers st w)
                then handleError s2 e (vm (watchers st w)) (callback_info st w)
                else (Inl e, s2))
      else (Inr (), s))"
    using assms by (rule run_returned)
  have c1: "callbacks (snd (run st w)) = callbacks st @ (if ?fire then [CallbackCall w v ?old] else [])"
  proof (cases ?fire)
    case False
    then show ?thesis using r cs by simp
  next
    case True
    let ?s2 = "emit (s\<lparr>watchers := (watchers s)(w := (watchers s w)\<lparr>wvalue := v\<rparr>)\<rparr>)
                    (CallbackCall w v ?old)"
    have c2: "callbacks ?s2 = callbacks st @ [CallbackCall w v ?old]"
      using cs by (simp add: callbacks_def emit_def)
    have "callbacks (snd (run st w)) = callbacks ?s2"
      using r True by (auto simp: Let_def callbacks_handleError split: option.splits)
    then show ?thesis using c2 True by simp
  qed
  have c3: "?fire \<Longrightarrow> wvalue (watchers (snd (run st w)) w) = v"
    using r by (auto simp: Let_def handleError_snd emit_def split: option.splits prod.splits)
  have nan: "\<exists>a. v = VNum a \<and> is_nan a \<Longrightarrow> \<not> strict_eq v ?old"
    by (cases ?old) (auto simp: num_strict_eq_def)
  show ?thesis
    using c1 c3 r nan by auto
qed

theorem run_callback_condition_witness:
  "active (watchers one_state 1) \<and>
   get one_state 1 = (Inr (VNum 0x3FF0000000000000), snd (get one_state 1)) \<and>
   wvalue (watchers one_state 1) = VNum 0x3FF0000000000000 \<and>
   callbacks (snd (run one_state 1)) = [] \<and>
   run one_state 1 = (Inr (), snd (get one_state 1))"
proof -
  have a: "active (watchers one_state 1)"
    by (simp add: one_state_def one_getter_def eval_defs)
  have g: "get one_state 1 = (Inr (VNum 0x3FF0000000000000), snd (get one_state 1))"
    by (simp add: one_state_def one_getter_def eval_defs)
  have v: "wvalue (watchers one_state 1) = VNum 0x3FF0000000000000"
    by (simp add: one_state_def one_getter_def eval_defs)
  have e: "strict_eq (VNum 0x3FF0000000000000) (VNum 0x3FF0000000000000)"
    by (simp add: num_strict_eq_def is_nan_def)
  have d: "\<not> deep (watchers one_state 1)"
    by (simp add: one_state_def one_getter_def eval_defs)
  have c: "callbacks one_state = []"
    by (simp add: one_state_def one_getter_def eval_defs)
  show ?thesis
    using run_callback_condition [OF a g] a g v e d c by (simp add: callbacks_get)
qed

text \<open>
  C2 as stated fails: a watcher whose stored value is NaN and whose getter yields NaN
  again is not deep and its value is a scalar, and \<open>run\<close> calls its callback.
\<close>

theorem run_nan_counterexample:
  "is_nan qNaN \<and>
   active (watchers nan_state 1) \<and>
   \<not> deep (watchers nan_state 1) \<and>
   wvalue (watchers nan_state 1) = VNum qNaN \<and>
   fst (get nan_state 1) = Inr (VNum qNaN) \<and>
   callbacks nan_state = [] \<and>
   callbacks (snd (run nan_state 1)) = [CallbackCall 1 (VNum qNaN) (VNum qNaN)]"
proof -
  have n: "\<not> strict_eq (VNum qNaN) (VNum qNaN)"
    by (simp add: num_strict_eq_def is_nan_qNaN)
  show ?thesis
    using n by (simp add: is_nan_qNaN nan_state_def nan_getter_def eval_defs)
qed

section \<open>Watcher.update and Watcher.evaluate\<close>

lemma getter_calls_watchers_update: "getter_calls (st\<lparr>watchers := f\<rparr>) = getter_calls st"
  by (simp add: getter_calls_def)

lemma callbacks_watchers_update: "callbacks (st\<lparr>watchers := f\<rparr>) = callbacks st"
  by (simp add: callbacks_def)

lemma getter_calls_queueWatcher: "getter_calls (queueWatcher st w) = getter_calls st"
  by (simp add: queueWatcher_def Let_def getter_calls_def emit_def)

lemma callbacks_queueWatcher: "callbacks (queueWatcher st w) = callbacks st"
  by (simp add: queueWatcher_def Let_def callbacks_def emit_def)

lemma watchers_queueWatcher: "watchers (queueWatcher st w) = watchers st"
  by (simp add: queueWatcher_def Let_def emit_def)

lemma queueWatcher_queued:
  "wid (watchers st w) \<in> has (queueWatcher st w) \<and>
   (wid (watchers st w) \<notin> has st \<longrightarrow> w \<in> set (queue (queueWatcher st w)))"
  by (simp add: queueWatcher_def Let_def emit_def)

text \<open>
  C3. \<open>update\<close> dispatches on the mode. For a lazy watcher it sets the dirty flag and
  changes nothing else: no getter is called, no callback, the stored value stays. For a
  watcher that is not lazy but sync it is \<open>run\<close>. Otherwise it is \<open>queueWatcher\<close>,
  which calls no getter and leaves the watcher queued. \<open>evaluate\<close> calls \<open>get\<close>
  once; when that returns it stores the result and clears the dirty flag, and when it
  throws, the error propagates.
\<close>

theorem update_dispatch:
  "(lazy (watchers st w) \<longrightarrow>
      update st w = (Inr (), st\<lparr>watchers := (watchers st)(w := (watchers st w)\<lparr>dirty := True\<rparr>)\<rparr>) \<and>
      dirty (watchers (snd (update st w)) w) \<and>
      wvalue (watchers (snd (update st w)) w) = wvalue (watchers st w) \<and>
      getter_calls (snd (update st w)) = getter_calls st \<and>
      callbacks (snd (update st w)) = callbacks st) \<and>
   (\<not> lazy (watchers st w) \<and> sync (watchers st w) \<longrightarrow> update st w = run st w) \<and>
   (\<not> lazy (watchers st w) \<and> \<not> sync (watchers st w) \<longrightarrow>
      update st w = (Inr (), queueWatcher st w) \<and>
      wid (watchers st w) \<in> has (snd (update st w)) \<and>
      (wid (watchers st w) \<notin> has st \<longrightarrow> w \<in> set (queue (snd (update st w)))) \<and>
      watchers (snd (update st w)) = watchers st \<and>
      getter_calls (snd (update st w)) = getter_calls st \<and>
      callbacks (snd (update st w)) = callbacks st) \<and>
   (\<forall>v s. get st w = (Inr v, s) \<longrightarrow>
      evaluate st w =
        (Inr (), s\<lparr>watchers := (watchers s)(w := (watchers s w)\<lparr>wvalue := v, dirty := False\<rparr>)\<rparr>) \<and>
      wvalue (watchers (snd (evaluate st w)) w) = v \<and>
      \<not> dirty (watchers (snd (evaluate st w)) w) \<and>
      getter_calls (snd (evaluate st w)) = getter_calls st @ [GetterCall w]) \<and>
   (\<forall>e s. get st w = (Inl e, s) \<longrightarrow> evaluate st w = (Inl e, s))"
proof -
  have g: "getter_calls s = getter_calls st @ [GetterCall w]" if "get st w = (r, s)" for r s
    using getter_calls_get[of st w] that by simp
  have l: "lazy (watchers st w) \<Longrightarrow>
      update st w = (Inr (), st\<lparr>watchers := (watchers st)(w := (watchers st w)\<lparr>dirty := True\<rparr>)\<rparr>)"
    by (simp add: update_def Let_def)
  have q: "\<not> lazy (watchers st w) \<Longrightarrow> \<not> sync (watchers st w) \<Longrightarrow>
      update st w = (Inr (), queueWatcher st w)"
    by (simp add: update_def Let_def)
  have r: "\<not> lazy (watchers st w) \<Longrightarrow> sync (watchers st w) \<Longrightarrow> update st w = run st w"
    by (simp add: update_def Let_def)
  have ev: "get st w = (Inr v, s) \<Longrightarrow> evaluate st w =
        (Inr (), s\<lparr>watchers := (watchers s)(w := (watchers s w)\<lparr>wvalue := v, dirty := False\<rparr>)\<rparr>)"
    for v s by (simp add: evaluate_def)
  have ev2: "get st w = (Inl e, s) \<Longrightarrow> evaluate st w = (Inl e, s)" for e s
    by (simp add: evaluate_def)
  show ?thesis
    using l q r ev ev2 g queueWatcher_queued[of st w]
    by (simp add: getter_calls_def callbacks_def getter_calls_queueWatcher[unfolded getter_calls_def]
        callbacks_queueWatcher[unfolded callbacks_def] watchers_queueWatcher)
qed

lemma lazy_state_facts:
  "lazy (watchers lazy_state 1) \<and> dirty (watchers lazy_state 1) \<and>
   getter_calls lazy_state = [] \<and> wvalue (watchers lazy_state 1) = VUndefined"
  by (simp add: lazy_state_def lazy_options_def one_getter_def eval_defs)

theorem update_dispatch_witness:
  "lazy (watchers lazy_state 1) \<and>
   getter_calls (snd (update lazy_state 1)) = [] \<and>
   dirty (watchers (snd (update lazy_state 1)) 1) \<and>
   wvalue (watchers (snd (update lazy_state 1)) 1) = VUndefined \<and>
   fst (get lazy_state 1) = Inr (VNum 0x3FF0000000000000) \<and>
   wvalue (watchers (snd (evaluate lazy_state 1)) 1) = VNum 0x3FF0000000000000 \<and>
   \<not> dirty (watchers (snd (evaluate lazy_state 1)) 1) \<and>
   getter_calls (snd (evaluate lazy_state 1)) = [GetterCall 1] \<and>
   \<not> lazy (watchers one_state 1) \<and> \<not> sync (watchers one_state 1) \<and>
   queue (snd (update one_state 1)) = [1] \<and>
   \<not> lazy (watchers sync_state 1) \<and> sync (watchers sync_state 1) \<and>
   update sync_state 1 = run sync_state 1"
proof -
  have g1: "fst (get lazy_state 1) = Inr (VNum 0x3FF0000000000000)"
    by (simp add: lazy_state_def lazy_options_def one_getter_def eval_defs)
  then have g: "get lazy_state 1 = (Inr (VNum 0x3FF0000000000000), snd (get lazy_state 1))"
    by (cases "get lazy_state 1") simp
  have o: "\<not> lazy (watchers one_state 1) \<and> \<not> sync (watchers one_state 1)"
    by (simp add: one_state_def one_getter_def eval_defs)
  have q: "queue (queueWatcher one_state 1) = [1]"
    by (simp add: one_state_def one_getter_def eval_defs)
  have s: "\<not> lazy (watchers sync_state 1) \<and> sync (watchers sync_state 1)"
    by (simp add: sync_state_def sync_options_def one_getter_def eval_defs)
  have e: "wvalue (watchers (snd (evaluate lazy_state 1)) 1) = VNum 0x3FF0000000000000 \<and>
      \<not> dirty (watchers (snd (evaluate lazy_state 1)) 1) \<and>
      getter_calls (snd (evaluate lazy_state 1)) = getter_calls lazy_state @ [GetterCall 1]"
    using update_dispatch [of lazy_state 1] g by blast
  have u: "getter_calls (snd (update lazy_state 1)) = getter_calls lazy_state \<and>
      dirty (watchers (snd (update lazy_state 1)) 1) \<and>
      wvalue (watchers (snd (update lazy_state 1)) 1) = wvalue (watchers lazy_state 1)"
    using update_dispatch [of lazy_state 1] lazy_state_facts by blast
  have uo: "update one_state 1 = (Inr (), queueWatcher one_state 1)"
    using update_dispatch [of one_state 1] o by blast
  have us: "update sync_state 1 = run sync_state 1"
    using update_dispatch [of sync_state 1] s by blast
  show ?thesis
    using lazy_state_facts g1 e u o uo q s us by simp
qed


text \<open>
  C4, amended. The active flag is read where \<open>run\<close> is entered, and nowhere in
  \<open>update\<close>. On a watcher that has been torn down, \<open>run\<close> changes nothing: no
  evaluation, no callback. \<open>update\<close> still sets the dirty flag of a lazy watcher and
  still queues a watcher that is neither lazy nor sync; only for a sync watcher it has
  no effect, because it is \<open>run\<close>.
\<close>

theorem inactive_run_update:
  assumes "\<not> active (watchers st w)"
  shows
    "run st w = (Inr (), st) \<and>
     (lazy (watchers st w) \<longrightarrow>
        update st w = (Inr (), st\<lparr>watchers := (watchers st)(w := (watchers st w)\<lparr>dirty := True\<rparr>)\<rparr>)) \<and>
     (\<not> lazy (watchers st w) \<and> sync (watchers st w) \<longrightarrow> update st w = (Inr (), st)) \<and>
     (\<not> lazy (watchers st w) \<and> \<not> sync (watchers st w) \<longrightarrow>
        update st w = (Inr (), queueWatcher st w) \<and>
        (wid (watchers st w) \<notin> has st \<longrightarrow> w \<in> set (queue (snd (update st w)))))"
  using assms queueWatcher_queued[of st w] by (simp add: run_def update_def Let_def)

lemma torn_state_facts:
  "\<not> active (watchers torn_state 1) \<and> \<not> lazy (watchers torn_state 1) \<and>
   \<not> sync (watchers torn_state 1) \<and> queue torn_state = [] \<and>
   wid (watchers torn_state 1) \<notin> has torn_state"
  by (simp add: torn_state_def one_getter_def eval_defs)

lemma torn_lazy_state_facts:
  "\<not> active (watchers torn_lazy_state 1) \<and> lazy (watchers torn_lazy_state 1) \<and>
   \<not> dirty (watchers torn_lazy_state 1)"
  by (simp add: torn_lazy_state_def lazy_state_def lazy_options_def one_getter_def eval_defs)

theorem inactive_run_update_witness:
  "\<not> active (watchers torn_state 1) \<and>
   run torn_state 1 = (Inr (), torn_state) \<and>
   1 \<in> set (queue (snd (update torn_state 1))) \<and>
   \<not> active (watchers torn_lazy_state 1) \<and>
   run torn_lazy_state 1 = (Inr (), torn_lazy_state) \<and>
   dirty (watchers (snd (update torn_lazy_state 1)) 1)"
proof -
  have a: "\<not> active (watchers torn_state 1)" using torn_state_facts by simp
  have b: "\<not> active (watchers torn_lazy_state 1)" using torn_lazy_state_facts by simp
  have r1: "run torn_state 1 = (Inr (), torn_state)"
    using inactive_run_update [OF a] by blast
  have q1: "1 \<in> set (queue (snd (update torn_state 1)))"
    using inactive_run_update [OF a] torn_state_facts by blast
  have r2: "run torn_lazy_state 1 = (Inr (), torn_lazy_state)"
    using inactive_run_update [OF b] by blast
  have u2: "update torn_lazy_state 1 =
      (Inr (), torn_lazy_state\<lparr>watchers := (watchers torn_lazy_state)
                 (1 := (watchers torn_lazy_state 1)\<lparr>dirty := True\<rparr>)\<rparr>)"
    using inactive_run_update [OF b] torn_lazy_state_facts by blast
  have d2: "dirty (watchers (snd (update torn_lazy_state 1)) 1)"
    by (subst u2) simp
  show ?thesis
    using a b r1 q1 r2 d2 by blast
qed

text \<open>
  C4 as stated fails: \<open>update\<close> of a torn-down watcher is not skipped. It queues the
  watcher and schedules a flush, and it marks a torn-down lazy watcher dirty.
\<close>

theorem inactive_update_counterexample:
  "\<not> active (watchers torn_state 1) \<and>
   queue torn_state = [] \<and>
   queue (snd (update torn_state 1)) = [1] \<and>
   events (snd (update torn_state 1)) = events torn_state @ [NextTick] \<and>
   \<not> active (watchers torn_lazy_state 1) \<and>
   \<not> dirty (watchers torn_lazy_state 1) \<and>
   dirty (watchers (snd (update torn_lazy_state 1)) 1)"
  by (simp add: torn_state_def torn_lazy_state_def lazy_state_def lazy_options_def
      one_getter_def eval_defs)

section \<open>Watcher.teardown\<close>

lemma fold_removeSub_subs:
  assumes "\<forall>d. distinct (subs st d)"
  shows "subs (fold (\<lambda>d s. removeSub s d w) ds st) d =
           (if d \<in> set ds then removeAll w (subs st d) else subs st d)"
  using assms
proof (induction ds arbitrary: st)
  case Nil
  show ?case by simp
next
  case (Cons a ds)
  let ?s = "removeSub st a w"
  have s: "subs ?s = (subs st)(a := removeAll w (subs st a))"
    using Cons.prems by (simp add: removeSub_def distinct_remove1_removeAll)
  have d: "\<forall>d. distinct (subs ?s d)"
    using Cons.prems by (simp add: s distinct_removeAll)
  show ?case
    using Cons.IH[OF d] by (simp add: s)
qed

lemma fold_removeSub_frame:
  "fold (\<lambda>d s. removeSub s d w) ds st = st\<lparr>subs := subs (fold (\<lambda>d s. removeSub s d w) ds st)\<rparr>"
proof (induction ds arbitrary: st)
  case Nil
  show ?case by simp
next
  case (Cons a ds)
  show ?case
    by (subst fold_simps(2), subst Cons.IH) (simp add: removeSub_def)
qed

lemma teardown_inactive: "\<not> active (watchers st w) \<Longrightarrow> teardown st w = st"
  by (simp add: teardown_def Let_def)

lemma teardown_active:
  assumes "active (watchers st w)"
  shows "teardown st w =
     (let c = vms st (vm (watchers st w));
          st1 = (if \<not> isBeingDestroyed c
                 then st\<lparr>vms := (vms st)(vm (watchers st w) :=
                               c\<lparr>watchers_vm := remove1 w (watchers_vm c)\<rparr>)\<rparr>
                 else st)
      in st1\<lparr>subs := subs (fold (\<lambda>d s. removeSub s d w) (rev (deps (watchers st w))) st1),
              watchers := (watchers st)(w := (watchers st w)\<lparr>active := False\<rparr>)\<rparr>)"
proof -
  let ?c = "vms st (vm (watchers st w))"
  let ?st1 = "(if \<not> isBeingDestroyed ?c
                 then st\<lparr>vms := (vms st)(vm (watchers st w) :=
                               ?c\<lparr>watchers_vm := remove1 w (watchers_vm ?c)\<rparr>)\<rparr>
                 else st)"
  let ?st2 = "fold (\<lambda>d s. removeSub s d w) (rev (deps (watchers st w))) ?st1"
  define S where "S = subs ?st2"
  have f: "?st2 = ?st1\<lparr>subs := S\<rparr>"
    unfolding S_def by (rule fold_removeSub_frame)
  have "teardown st w = ?st2\<lparr>watchers := (watchers ?st2)(w := (watchers ?st2 w)\<lparr>active := False\<rparr>)\<rparr>"
    using assms by (simp add: teardown_def Let_def)
  also have "\<dots> = (?st1\<lparr>subs := S\<rparr>)\<lparr>watchers := (watchers st)(w := (watchers st w)\<lparr>active := False\<rparr>)\<rparr>"
    by (simp add: f)
  finally show ?thesis by (simp add: Let_def S_def)
qed


lemma teardown_subs:
  assumes "active (watchers st w)" and "\<forall>d. distinct (subs st d)"
  shows "subs (teardown st w) d =
           (if d \<in> set (deps (watchers st w)) then removeAll w (subs st d) else subs st d)"
proof -
  let ?c = "vms st (vm (watchers st w))"
  let ?st1 = "(if \<not> isBeingDestroyed ?c
                 then st\<lparr>vms := (vms st)(vm (watchers st w) :=
                               ?c\<lparr>watchers_vm := remove1 w (watchers_vm ?c)\<rparr>)\<rparr>
                 else st)"
  have s1: "subs ?st1 = subs st" by simp
  then have d1: "\<forall>d. distinct (subs ?st1 d)" using assms(2) by simp
  have "subs (teardown st w) d =
          subs (fold (\<lambda>d s. removeSub s d w) (rev (deps (watchers st w))) ?st1) d"
    by (simp add: teardown_active[OF assms(1)] Let_def)
  also have "\<dots> = (if d \<in> set (rev (deps (watchers st w)))
                      then removeAll w (subs ?st1 d) else subs ?st1 d)"
    by (rule fold_removeSub_subs[OF d1])
  finally show ?thesis by (simp only: s1 set_rev)
qed

lemma teardown_rest:
  assumes "active (watchers st w)"
  shows "watchers (teardown st w) = (watchers st)(w := (watchers st w)\<lparr>active := False\<rparr>)"
    and "vms (teardown st w) =
           (if isBeingDestroyed (vms st (vm (watchers st w))) then vms st
            else (vms st)(vm (watchers st w) :=
                   (vms st (vm (watchers st w)))
                     \<lparr>watchers_vm := remove1 w (watchers_vm (vms st (vm (watchers st w))))\<rparr>))"
    and "events (teardown st w) = events st"
    and "targetStack (teardown st w) = targetStack st"
    and "queue (teardown st w) = queue st"
    and "uid (teardown st w) = uid st"
  by (simp_all add: teardown_active[OF assms] Let_def)

text \<open>
  C6. \<open>teardown\<close> of an active watcher removes it from the subscribers of every Dep in
  its dependency list and from no other list of subscribers, removes it from the list
  of watchers of its component unless the component is being destroyed, and marks it
  inactive; nothing else changes in the watcher objects. \<open>teardown\<close> of an inactive
  watcher changes nothing, so a second \<open>teardown\<close> changes nothing. Every Dep holds a
  subscriber at most once.
\<close>

theorem teardown_semantics:
  assumes "\<forall>d. distinct (subs st d)"
  shows
    "(active (watchers st w) \<longrightarrow>
        (\<forall>d. subs (teardown st w) d =
               (if d \<in> set (deps (watchers st w)) then removeAll w (subs st d) else subs st d)) \<and>
        (\<forall>d \<in> set (deps (watchers st w)). w \<notin> set (subs (teardown st w) d)) \<and>
        (\<not> isBeingDestroyed (vms st (vm (watchers st w))) \<longrightarrow>
           vms (teardown st w) =
             (vms st)(vm (watchers st w) :=
                (vms st (vm (watchers st w)))
                  \<lparr>watchers_vm := remove1 w (watchers_vm (vms st (vm (watchers st w))))\<rparr>) \<and>
           (distinct (watchers_vm (vms st (vm (watchers st w)))) \<longrightarrow>
              w \<notin> set (watchers_vm (vms (teardown st w) (vm (watchers st w)))))) \<and>
        (isBeingDestroyed (vms st (vm (watchers st w))) \<longrightarrow> vms (teardown st w) = vms st) \<and>
        watchers (teardown st w) = (watchers st)(w := (watchers st w)\<lparr>active := False\<rparr>) \<and>
        \<not> active (watchers (teardown st w) w)) \<and>
     (\<not> active (watchers st w) \<longrightarrow> teardown st w = st) \<and>
     teardown (teardown st w) w = teardown st w"
proof -
  have idem: "teardown (teardown st w) w = teardown st w"
  proof (cases "active (watchers st w)")
    case True
    then have "\<not> active (watchers (teardown st w) w)" by (simp add: teardown_rest(1))
    then show ?thesis by (rule teardown_inactive)
  next
    case False
    then show ?thesis by (simp add: teardown_inactive)
  qed
  show ?thesis
    using idem teardown_subs[OF _ assms, of w] teardown_rest(1,2)[of st w] teardown_inactive[of st w]
    by auto
qed

lemma two_state_facts:
  "active (watchers two_state 1) \<and> deps (watchers two_state 1) = [1, 2] \<and>
   subs two_state = (\<lambda>d. [])(1 := [1], 2 := [1]) \<and> vm (watchers two_state 1) = 0 \<and>
   watchers_vm (vms two_state 0) = [1] \<and> \<not> isBeingDestroyed (vms two_state 0)"
  by (simp add: two_state_def two_getter_def eval_defs)

theorem teardown_semantics_witness:
  "(\<forall>d. distinct (subs two_state d)) \<and>
   active (watchers two_state 1) \<and>
   subs two_state 1 = [1] \<and> subs two_state 2 = [1] \<and>
   subs (teardown two_state 1) 1 = [] \<and> subs (teardown two_state 1) 2 = [] \<and>
   watchers_vm (vms two_state 0) = [1] \<and>
   watchers_vm (vms (teardown two_state 1) 0) = [] \<and>
   \<not> active (watchers (teardown two_state 1) 1) \<and>
   teardown (teardown two_state 1) 1 = teardown two_state 1"
proof -
  have d: "\<forall>d. distinct (subs two_state d)"
    using two_state_facts by simp
  note t = teardown_semantics [OF d, of 1]
  have s: "\<forall>d. subs (teardown two_state 1) d =
               (if d \<in> set (deps (watchers two_state 1)) then removeAll 1 (subs two_state d)
                else subs two_state d)"
    using t two_state_facts by blast
  have v: "vms (teardown two_state 1) =
             (vms two_state)(vm (watchers two_state 1) :=
                (vms two_state (vm (watchers two_state 1)))
                  \<lparr>watchers_vm := remove1 1 (watchers_vm (vms two_state (vm (watchers two_state 1))))\<rparr>)"
    using t two_state_facts by simp
  have a: "\<not> active (watchers (teardown two_state 1) 1)"
    using t two_state_facts by blast
  have i: "teardown (teardown two_state 1) 1 = teardown two_state 1"
    using t by blast
  have s1: "subs (teardown two_state 1) 1 = [] \<and> subs (teardown two_state 1) 2 = []"
    using s two_state_facts by simp
  have v1: "watchers_vm (vms (teardown two_state 1) 0) = []"
    using v two_state_facts by simp
  show ?thesis
    using d a i s1 v1 two_state_facts by simp
qed

section \<open>Collecting dependencies\<close>

lemma fresh_append: "fresh N (xs @ ys) = fresh N xs @ fresh (N \<union> set xs) ys"
  by (induction xs arbitrary: N) (simp_all add: insert_absorb)

lemma set_fresh: "set (fresh N xs) = set xs - N"
  by (induction xs arbitrary: N) auto

lemma distinct_fresh: "distinct (fresh N xs)"
  by (induction xs arbitrary: N) (auto simp: set_fresh)

lemma addDep_watchers:
  "watchers (addDep st w d) =
     (if d \<in> newDepIds (watchers st w) then watchers st
      else (watchers st)(w := (watchers st w)\<lparr>newDepIds := insert d (newDepIds (watchers st w)),
                                            newDeps := newDeps (watchers st w) @ [d]\<rparr>))"
  by (simp add: addDep_def addSub_def Let_def)

lemma addDep_subs:
  "subs (addDep st w d) =
     (if d \<notin> newDepIds (watchers st w) \<and> d \<notin> depIds (watchers st w) \<and> w \<notin> set (subs st d)
      then (subs st)(d := subs st d @ [w]) else subs st)"
  by (auto simp add: addDep_def addSub_def Let_def)

lemma addDep_targetStack: "targetStack (addDep st w d) = targetStack st"
  by (simp add: addDep_def addSub_def Let_def)

lemma collecting_dep_depend:
  assumes "collecting st w R s"
  shows "collecting st w (R @ [d]) (dep_depend s d)"
proof -
  have t: "target s = Some w" using assms by (simp add: collecting_def target_def)
  then have e: "dep_depend s d = addDep s w d" by (simp add: dep_depend_def)
  show ?thesis
    using assms unfolding e collecting_def addDep_watchers addDep_subs addDep_targetStack fresh_append
    by (cases "d \<in> newDepIds (watchers s w)") auto
qed

lemma collecting_depend_all:
  assumes "collecting st w R s"
  shows "collecting st w (R @ ds) (depend_all ds s)"
  using assms
proof (induction ds arbitrary: R s)
  case Nil
  then show ?case by (simp add: depend_all_def)
next
  case (Cons d ds)
  have "collecting st w ((R @ [d]) @ ds) (depend_all ds (dep_depend s d))"
    by (rule Cons.IH) (rule collecting_dep_depend[OF Cons.prems])
  then show ?case by (simp add: depend_all_def)
qed

lemma collecting_events: "collecting st w R s \<Longrightarrow> collecting st w R (s\<lparr>events := es\<rparr>)"
  by (simp add: collecting_def)

lemma collecting_seenObjects: "collecting st w R s \<Longrightarrow> collecting st w R (s\<lparr>seenObjects := S\<rparr>)"
  by (simp add: collecting_def)

lemma collecting_pushTarget: "collecting st w [] (pushTarget st w)"
  by (simp add: collecting_def pushTarget_def)

lemma collecting_after_getter: "collecting st w (getter_reads st w) (after_getter st w)"
proof -
  have "collecting st w [] (emit (pushTarget st w) (GetterCall w))"
    unfolding emit_def by (rule collecting_events) (rule collecting_pushTarget)
  then have "collecting st w ([] @ getter_reads st w)
               (depend_all (getter_reads st w) (emit (pushTarget st w) (GetterCall w)))"
    by (rule collecting_depend_all)
  then show ?thesis by (simp add: after_getter_def)
qed

lemma collecting_handleError:
  "collecting st w R s \<Longrightarrow> collecting st w R (snd (handleError s e v i))"
  by (simp add: handleError_snd collecting_events)

lemma collecting_traverse:
  assumes "collecting st w R s"
  shows "collecting st w (R @ traverse_reads s v) (snd (traverse s v))"
proof -
  obtain r t where t: "traverse' (Suc (stackLimit (env s))) (objects s) v
                         \<lparr>seen = {}, treads = [], visited = []\<rparr> = (r, t)"
    by (cases "traverse' (Suc (stackLimit (env s))) (objects s) v
                 \<lparr>seen = {}, treads = [], visited = []\<rparr>")
  have "collecting st w (R @ treads t) (depend_all (treads t) (s\<lparr>seenObjects := seen t\<rparr>))"
    by (rule collecting_depend_all) (rule collecting_seenObjects[OF assms])
  then show ?thesis using t by (simp add: traverse_def traverse_reads_def)
qed


lemma finish_get_collecting:
  assumes c: "collecting st w R s"
    and o: "objects s = objects st" "env s = env st" "deep (watchers s w) = deep (watchers st w)"
    and f: "finish_get s w v = (Inr v', st')"
  shows "v' = v \<and>
         (\<exists>s'. collecting st w (R @ (if deep (watchers st w) then traverse_reads st v else [])) s' \<and>
               st' = cleanupDeps (popTarget s') w)"
proof (cases "deep (watchers st w)")
  case False
  then show ?thesis using c o f by (auto simp: finish_get_def)
next
  case True
  obtain r s' where t: "traverse s v = (r, s')" by (cases "traverse s v")
  have tr: "traverse_reads s v = traverse_reads st v"
    using o by (simp add: traverse_reads_def)
  have "collecting st w (R @ traverse_reads s v) (snd (traverse s v))"
    by (rule collecting_traverse[OF c])
  then have c': "collecting st w (R @ traverse_reads st v) s'" using t tr by simp
  show ?thesis
    using True o f t c' by (cases r) (auto simp: finish_get_def)
qed

lemma get_collecting:
  assumes g: "get st w = (Inr v, st')"
  shows "v = yielded st w \<and>
         (\<exists>s. collecting st w (evaluation_reads st w) s \<and> st' = cleanupDeps (popTarget s) w)"
proof -
  have a: "collecting st w (getter_reads st w) (after_getter st w)"
    by (rule collecting_after_getter)
  have ta: "tracks_only st (after_getter st w)" by (rule tracks_only_after_getter)
  show ?thesis
  proof (cases "getter_result st w")
    case (Inr u)
    have f: "finish_get (after_getter st w) w u = (Inr v, st')"
      using g Inr by (simp add: get_returned)
    have "v = u \<and>
         (\<exists>s'. collecting st w (getter_reads st w @ (if deep (watchers st w) then traverse_reads st u else [])) s' \<and>
               st' = cleanupDeps (popTarget s') w)"
      using ta by (intro finish_get_collecting[OF a _ _ _ f]) (simp_all add: tracks_only_def same_fields_def)
    then show ?thesis using Inr by (auto simp: evaluation_reads_def yielded_def split: if_splits)
  next
    case (Inl e)
    show ?thesis
    proof (cases "user (watchers st w)")
      case False
      then show ?thesis using g Inl by (simp add: get_thrown_internal)
    next
      case True
      obtain r s where h: "handleError (after_getter st w) e (vm (watchers st w)) (getter_info st w) = (r, s)"
        by (cases "handleError (after_getter st w) e (vm (watchers st w)) (getter_info st w)")
      have cs: "collecting st w (getter_reads st w) s"
        using collecting_handleError[OF a, of e "vm (watchers st w)" "getter_info st w"] h by simp
      have ts: "tracks_only st s"
        using step_handleError[OF ta h] .
      have f: "finish_get s w VUndefined = (Inr v, st')"
        using g Inl True h by (cases r) (simp_all add: get_thrown_user)
      have "v = VUndefined \<and>
         (\<exists>s'. collecting st w (getter_reads st w @ (if deep (watchers st w) then traverse_reads st VUndefined else [])) s' \<and>
               st' = cleanupDeps (popTarget s') w)"
        using ts by (intro finish_get_collecting[OF cs _ _ _ f]) (simp_all add: tracks_only_def same_fields_def)
      then show ?thesis using Inl by (auto simp: evaluation_reads_def yielded_def split: if_splits)
    qed
  qed
qed

lemma fold_cond_removeSub:
  "fold (\<lambda>d s. if P d then removeSub s d w else s) ds st =
   fold (\<lambda>d s. removeSub s d w) (filter P ds) st"
  by (induction ds arbitrary: st) simp_all

lemma cleanupDeps_eq:
  "cleanupDeps st w =
     st\<lparr>subs := subs (fold (\<lambda>d s. removeSub s d w)
                       (filter (\<lambda>d. d \<notin> newDepIds (watchers st w)) (rev (deps (watchers st w)))) st),
        watchers := (watchers st)
          (w := (watchers st w)\<lparr>depIds := newDepIds (watchers st w), newDepIds := {},
                                deps := newDeps (watchers st w), newDeps := []\<rparr>)\<rparr>"
proof -
  let ?ds = "filter (\<lambda>d. d \<notin> newDepIds (watchers st w)) (rev (deps (watchers st w)))"
  let ?s1 = "fold (\<lambda>d s. removeSub s d w) ?ds st"
  define S where "S = subs ?s1"
  have f: "?s1 = st\<lparr>subs := S\<rparr>"
    unfolding S_def by (rule fold_removeSub_frame)
  show ?thesis
    unfolding cleanupDeps_def Let_def fold_cond_removeSub
    by (simp add: f)
qed

lemma cleanupDeps_subs:
  assumes "\<forall>d. distinct (subs st d)"
  shows "subs (cleanupDeps st w) d =
           (if d \<in> set (deps (watchers st w)) \<and> d \<notin> newDepIds (watchers st w)
            then removeAll w (subs st d) else subs st d)"
  by (simp add: cleanupDeps_eq fold_removeSub_subs[OF assms])


lemma count_list_distinct: "distinct xs \<Longrightarrow> count_list xs x = (if x \<in> set xs then 1 else 0)"
  by (induction xs) auto

lemma collecting_distinct:
  assumes "collecting st w R s" and "\<forall>d. distinct (subs st d)"
  shows "\<forall>d. distinct (subs s d)"
  using assms by (simp add: collecting_def)

lemma get_result_state:
  assumes empty: "newDeps (watchers st w) = []" "newDepIds (watchers st w) = {}"
    and ids: "depIds (watchers st w) = set (deps (watchers st w))"
    and once: "\<forall>d. distinct (subs st d)"
    and ret: "get st w = (Inr v, st')"
  shows "deps (watchers st' w) = fresh {} (evaluation_reads st w)"
    and "depIds (watchers st' w) = set (evaluation_reads st w)"
    and "newDeps (watchers st' w) = []"
    and "newDepIds (watchers st' w) = {}"
    and "targetStack st' = targetStack st"
    and "x \<noteq> w \<Longrightarrow> watchers st' x = watchers st x"
    and "subs st' d =
        (if d \<in> set (evaluation_reads st w) \<and> d \<notin> set (deps (watchers st w))
         then (if w \<in> set (subs st d) then subs st d else subs st d @ [w])
         else if d \<in> set (deps (watchers st w)) \<and> d \<notin> set (evaluation_reads st w)
           then removeAll w (subs st d)
           else subs st d)"
proof -
  let ?R = "evaluation_reads st w"
  obtain s where c: "collecting st w ?R s" and st': "st' = cleanupDeps (popTarget s) w"
    using get_collecting[OF ret] by blast
  let ?p = "popTarget s"
  have pw: "watchers ?p = watchers s" and ps: "subs ?p = subs s"
    and pt: "targetStack ?p = targetStack st"
    using c by (simp_all add: popTarget_def collecting_def)
  have dp: "\<forall>d. distinct (subs ?p d)"
    using collecting_distinct[OF c once] ps by simp
  have w': "watchers st' =
       (watchers s)(w := (watchers s w)\<lparr>depIds := newDepIds (watchers s w), newDepIds := {},
                                deps := newDeps (watchers s w), newDeps := []\<rparr>)"
    by (simp add: st' cleanupDeps_eq pw)
  show "deps (watchers st' w) = fresh {} ?R"
    using c empty by (simp add: w' collecting_def)
  show "depIds (watchers st' w) = set ?R"
    using c empty by (simp add: w' collecting_def)
  show "newDeps (watchers st' w) = []" by (simp add: w')
  show "newDepIds (watchers st' w) = {}" by (simp add: w')
  show "targetStack st' = targetStack st" by (simp add: st' cleanupDeps_eq pt)
  show "x \<noteq> w \<Longrightarrow> watchers st' x = watchers st x"
    using c by (simp add: w' collecting_def)
  have "subs st' d =
           (if d \<in> set (deps (watchers s w)) \<and> d \<notin> newDepIds (watchers s w)
            then removeAll w (subs s d) else subs s d)"
    using cleanupDeps_subs[OF dp, of w d] by (simp add: st' pw ps)
  then show "subs st' d =
        (if d \<in> set ?R \<and> d \<notin> set (deps (watchers st w))
         then (if w \<in> set (subs st d) then subs st d else subs st d @ [w])
         else if d \<in> set (deps (watchers st w)) \<and> d \<notin> set ?R
           then removeAll w (subs st d)
           else subs st d)"
    using c empty ids by (auto simp: collecting_def)
qed


section \<open>Watcher.get\<close>

text \<open>
  An evaluation that is entered with an empty working set tracks exactly. Take a watcher
  whose working set (\<open>newDeps\<close>, \<open>newDepIds\<close>) is empty and whose \<open>depIds\<close> are the
  identifiers of its \<open>deps\<close> when \<open>get\<close> is entered, as they are after construction
  and after every \<open>get\<close> that returned, and let every Dep hold a subscriber at most
  once. When \<open>get\<close> returns, the dependency list of the watcher holds exactly the Deps
  read during this evaluation, each once, in the order of their first read, and the
  working set is empty again. A Dep that was read and was not in the previous list has
  the watcher subscribed, exactly once; a Dep of the previous list that was not read
  again has it unsubscribed; every other list of subscribers is as before. If the
  watcher was subscribed to exactly the Deps of its previous list, it is now subscribed
  to exactly the Deps it read.
\<close>

theorem get_tracks_exactly:
  assumes "newDeps (watchers st w) = []" and "newDepIds (watchers st w) = {}"
    and "depIds (watchers st w) = set (deps (watchers st w))"
    and "\<forall>d. distinct (subs st d)"
    and "get st w = (Inr v, st')"
  shows
    "deps (watchers st' w) = fresh {} (evaluation_reads st w) \<and>
     set (deps (watchers st' w)) = set (evaluation_reads st w) \<and>
     distinct (deps (watchers st' w)) \<and>
     depIds (watchers st' w) = set (deps (watchers st' w)) \<and>
     newDeps (watchers st' w) = [] \<and> newDepIds (watchers st' w) = {} \<and>
     (\<forall>d. subs st' d =
        (if d \<in> set (evaluation_reads st w) \<and> d \<notin> set (deps (watchers st w))
         then (if w \<in> set (subs st d) then subs st d else subs st d @ [w])
         else if d \<in> set (deps (watchers st w)) \<and> d \<notin> set (evaluation_reads st w)
           then removeAll w (subs st d)
           else subs st d)) \<and>
     (\<forall>d \<in> set (evaluation_reads st w).
        d \<notin> set (deps (watchers st w)) \<longrightarrow> count_list (subs st' d) w = 1) \<and>
     (\<forall>d \<in> set (deps (watchers st w)).
        d \<notin> set (evaluation_reads st w) \<longrightarrow> w \<notin> set (subs st' d)) \<and>
     (\<forall>d. distinct (subs st' d)) \<and>
     ((\<forall>d. w \<in> set (subs st d) \<longleftrightarrow> d \<in> set (deps (watchers st w))) \<longrightarrow>
      (\<forall>d. w \<in> set (subs st' d) \<longleftrightarrow> d \<in> set (evaluation_reads st w))) \<and>
     targetStack st' = targetStack st"
proof -
  note r = get_result_state[OF assms]
  let ?R = "evaluation_reads st w"
  have d: "deps (watchers st' w) = fresh {} ?R" by (rule r(1))
  have sd: "set (deps (watchers st' w)) = set ?R" by (simp add: d set_fresh)
  have dd: "distinct (deps (watchers st' w))" by (simp add: d distinct_fresh)
  have s: "\<forall>d. subs st' d =
        (if d \<in> set ?R \<and> d \<notin> set (deps (watchers st w))
         then (if w \<in> set (subs st d) then subs st d else subs st d @ [w])
         else if d \<in> set (deps (watchers st w)) \<and> d \<notin> set ?R
           then removeAll w (subs st d)
           else subs st d)"
    using r(7) by blast
  have ds: "\<forall>d. distinct (subs st' d)"
    using assms(4) by (simp add: s distinct_removeAll)
  have c1: "\<forall>d \<in> set ?R. d \<notin> set (deps (watchers st w)) \<longrightarrow> count_list (subs st' d) w = 1"
    using assms(4) by (auto simp: s count_list_distinct)
  have c2: "\<forall>d \<in> set (deps (watchers st w)). d \<notin> set ?R \<longrightarrow> w \<notin> set (subs st' d)"
    by (simp add: s)
  have c3: "(\<forall>d. w \<in> set (subs st d) \<longleftrightarrow> d \<in> set (deps (watchers st w))) \<longrightarrow>
      (\<forall>d. w \<in> set (subs st' d) \<longleftrightarrow> d \<in> set ?R)"
    by (auto simp: s)
  show ?thesis
    using d sd dd r(2,3,4,5) s ds c1 c2 c3 by (simp only: simp_thms)
qed

lemma cond_state_facts:
  "newDeps (watchers cond_state 1) = [] \<and> newDepIds (watchers cond_state 1) = {} \<and>
   deps (watchers cond_state 1) = [1, 2] \<and> depIds (watchers cond_state 1) = {1, 2} \<and>
   subs cond_state = (\<lambda>d. [])(1 := [1], 2 := [1]) \<and>
   fst (get cond_state 1) = Inr (VNum 0x3FF0000000000000) \<and>
   evaluation_reads cond_state 1 = [2, 3]"
  by (simp add: cond_state_def cond_getter_def leaf_obj_def evaluation_reads_def
      getter_reads_def eval_defs insert_commute)

theorem get_tracks_exactly_witness:
  "newDeps (watchers cond_state 1) = [] \<and> newDepIds (watchers cond_state 1) = {} \<and>
   depIds (watchers cond_state 1) = set (deps (watchers cond_state 1)) \<and>
   (\<forall>d. distinct (subs cond_state d)) \<and>
   fst (get cond_state 1) = Inr (VNum 0x3FF0000000000000) \<and>
   deps (watchers cond_state 1) = [1, 2] \<and>
   evaluation_reads cond_state 1 = [2, 3] \<and>
   deps (watchers (snd (get cond_state 1)) 1) = [2, 3] \<and>
   subs (snd (get cond_state 1)) 1 = [] \<and>
   subs (snd (get cond_state 1)) 2 = [1] \<and>
   subs (snd (get cond_state 1)) 3 = [1]"
proof -
  have h1: "newDeps (watchers cond_state 1) = []" and h2: "newDepIds (watchers cond_state 1) = {}"
    and h3: "depIds (watchers cond_state 1) = set (deps (watchers cond_state 1))"
    and h4: "\<forall>d. distinct (subs cond_state d)"
    using cond_state_facts by auto
  have h5: "get cond_state 1 = (Inr (VNum 0x3FF0000000000000), snd (get cond_state 1))"
    using cond_state_facts by (cases "get cond_state 1") simp
  note t = get_tracks_exactly [OF h1 h2 h3 h4 h5]
  have d: "deps (watchers (snd (get cond_state 1)) 1) = fresh {} (evaluation_reads cond_state 1)"
    using t by blast
  have s: "\<forall>d. subs (snd (get cond_state 1)) d =
        (if d \<in> set (evaluation_reads cond_state 1) \<and> d \<notin> set (deps (watchers cond_state 1))
         then (if 1 \<in> set (subs cond_state d) then subs cond_state d else subs cond_state d @ [1])
         else if d \<in> set (deps (watchers cond_state 1)) \<and> d \<notin> set (evaluation_reads cond_state 1)
           then removeAll 1 (subs cond_state d)
           else subs cond_state d)"
    using t by blast
  have d': "deps (watchers (snd (get cond_state 1)) 1) = [2, 3]"
    using d cond_state_facts by simp
  have s': "subs (snd (get cond_state 1)) 1 = [] \<and> subs (snd (get cond_state 1)) 2 = [1] \<and>
      subs (snd (get cond_state 1)) 3 = [1]"
    using s cond_state_facts by simp
  show ?thesis
    using h1 h2 h3 h4 d' s' cond_state_facts by simp
qed

text \<open>
  C1. The code departs from the claim after an evaluation that threw. \<open>get\<close> calls
  \<open>popTarget\<close> and \<open>cleanupDeps\<close> after the getter and the traversal, outside any
  \<open>finally\<close>: an error that leaves \<open>get\<close> skips both, and the Deps read so far stay in
  the working set. The lazy watcher below is built by the constructor, as the watcher
  of a computed property is. Its first evaluation read Dep 1 and threw; its next
  evaluation is entered with Dep 1 in the working set, reads Dep 2 only and returns.
  Its dependency list is then Dep 1 and Dep 2, and it is still subscribed to Dep 1,
  which that evaluation did not read.
\<close>

theorem get_after_abort_stale_deps:
  "lazy (watchers flaky_state 1) \<and> \<not> user (watchers flaky_state 1) \<and>
   deps (watchers flaky_state 1) = [] \<and> newDeps (watchers flaky_state 1) = [] \<and>
   fst (evaluate flaky_state 1) = Inl (Error ''not ready'') \<and>
   deps (watchers aborted_state 1) = [] \<and>
   newDeps (watchers aborted_state 1) = [1] \<and>
   fst (get aborted_state 1) = Inr (VNum 0x3FF0000000000000) \<and>
   evaluation_reads aborted_state 1 = [2] \<and>
   deps (watchers (snd (get aborted_state 1)) 1) = [1, 2] \<and>
   subs (snd (get aborted_state 1)) 1 = [1] \<and>
   subs (snd (get aborted_state 1)) 2 = [1]"
  by (simp add: aborted_state_def flaky_state_def flaky_getter_def lazy_options_def leaf_obj_def
      evaluation_reads_def getter_reads_def eval_defs)

section \<open>Errors of user functions\<close>

lemma targetStack_after_getter: "targetStack (after_getter st w) = w # targetStack st"
  using collecting_after_getter[of st w] by (simp add: collecting_def)

lemma env_after_getter: "env (after_getter st w) = env st"
  using tracks_only_after_getter[of st w] by (simp add: tracks_only_def)

lemma traverse_undefined: "traverse s VUndefined = (Inr (), s\<lparr>seenObjects := {}\<rparr>)"
  by (simp add: traverse_def depend_all_def)

lemma finish_get_undefined:
  "finish_get s w VUndefined =
     (Inr VUndefined,
      cleanupDeps (popTarget (if deep (watchers s w) then s\<lparr>seenObjects := {}\<rparr> else s)) w)"
  by (simp add: finish_get_def traverse_undefined)

lemma cleanupDeps_working_set:
  "newDeps (watchers (cleanupDeps s w) w) = [] \<and> newDepIds (watchers (cleanupDeps s w) w) = {} \<and>
   targetStack (cleanupDeps s w) = targetStack s \<and> events (cleanupDeps s w) = events s"
  by (simp add: cleanupDeps_eq)

lemma env_handleError: "env (snd (handleError s e v i)) = env s"
  by (simp add: handleError_snd)

lemma get_user_error_handled:
  assumes "user (watchers st w)" and "getter_result st w = Inl e"
    and "fst (handleError (after_getter st w) e (vm (watchers st w)) (getter_info st w)) = Inr ()"
  shows "get st w =
           finish_get (snd (handleError (after_getter st w) e (vm (watchers st w)) (getter_info st w)))
             w VUndefined"
    and "fst (get st w) = Inr VUndefined"
    and "targetStack (snd (get st w)) = targetStack st"
    and "newDeps (watchers (snd (get st w)) w) = []"
    and "newDepIds (watchers (snd (get st w)) w) = {}"
    and "events (snd (get st w)) =
           events st @ [GetterCall w] @
             error_report st e (vm (watchers st w)) (getter_info st w)"
proof -
  let ?a = "after_getter st w"
  let ?h = "handleError ?a e (vm (watchers st w)) (getter_info st w)"
  have hs: "targetStack (snd ?h) = w # targetStack st"
    by (simp add: handleError_snd targetStack_after_getter)
  have he: "events (snd ?h) = events st @ [GetterCall w] @
             error_report st e (vm (watchers st w)) (getter_info st w)"
    by (simp add: handleError_snd events_after_getter error_report_def error_warning_def
        env_after_getter split: option.splits)
  show g: "get st w = finish_get (snd ?h) w VUndefined"
    using assms by (cases ?h) (simp add: get_thrown_user)
  show "fst (get st w) = Inr VUndefined" by (simp add: g finish_get_undefined)
  show "targetStack (snd (get st w)) = targetStack st"
    using hs by (simp add: g finish_get_undefined cleanupDeps_working_set popTarget_def)
  show "newDeps (watchers (snd (get st w)) w) = []"
    by (simp add: g finish_get_undefined cleanupDeps_working_set)
  show "newDepIds (watchers (snd (get st w)) w) = {}"
    by (simp add: g finish_get_undefined cleanupDeps_working_set)
  show "events (snd (get st w)) =
           events st @ [GetterCall w] @
             error_report st e (vm (watchers st w)) (getter_info st w)"
    using he by (simp add: g finish_get_undefined cleanupDeps_working_set popTarget_def)
qed

lemma get_user_error_rethrown:
  assumes "user (watchers st w)" and "getter_result st w = Inl e"
    and "fst (handleError (after_getter st w) e (vm (watchers st w)) (getter_info st w)) = Inl e'"
  shows "fst (get st w) = Inl e'"
  using assms
  by (cases "handleError (after_getter st w) e (vm (watchers st w)) (getter_info st w)")
     (simp add: get_thrown_user)

lemma get_internal_error:
  assumes "\<not> user (watchers st w)" and "getter_result st w = Inl e"
  shows "fst (get st w) = Inl e"
    and "events (snd (get st w)) = events st @ [GetterCall w]"
  using assms
  by (simp_all add: get_thrown_internal events_after_getter)

lemma run_callback_error:
  assumes "active (watchers st w)" and "get st w = (Inr v, s)"
    and "\<not> strict_eq v (wvalue (watchers st w)) \<or> isObject v \<or> deep (watchers st w)"
    and "cb (watchers st w) (vm (watchers st w)) v (wvalue (watchers st w)) = Some e"
  shows "user (watchers st w) \<Longrightarrow>
           run st w =
             handleError
               (emit (s\<lparr>watchers := (watchers s)(w := (watchers s w)\<lparr>wvalue := v\<rparr>)\<rparr>)
                  (CallbackCall w v (wvalue (watchers st w))))
               e (vm (watchers st w)) (callback_info st w)"
    and "\<not> user (watchers st w) \<Longrightarrow>
           fst (run st w) = Inl e \<and>
           events (snd (run st w)) = events s @ [CallbackCall w v (wvalue (watchers st w))]"
  using assms(3,4) by (auto simp: run_returned[OF assms(1,2)] Let_def emit_def)

lemma run_get_error:
  assumes "active (watchers st w)" and "get st w = (Inl e, s)"
  shows "run st w = (Inl e, s)"
  using assms by (simp add: run_def)

text \<open>
  C5, amended. In a user watcher an error thrown by the getter (in \<open>get\<close>) or by the
  callback (in \<open>run\<close>) is caught where the function is called and passed to
  \<open>handleError\<close>. When \<open>handleError\<close> returns, that is when the configured handler
  returns, or no handler is configured and the context is a browser with \<open>console\<close>
  defined, the evaluation goes on as if the getter had returned \<open>undefined\<close>: \<open>get\<close>
  returns \<open>undefined\<close>, the active-watcher stack is popped and the dependencies are
  reconciled; \<open>run\<close> returns. When \<open>handleError\<close> throws, the error it throws leaves
  \<open>get\<close> and \<open>run\<close>. In a watcher that is not a user's, getter and callback are
  called unwrapped: the error leaves \<open>get\<close> and \<open>run\<close>, and no handler is called.
  An error that leaves \<open>get\<close> leaves \<open>run\<close>.
\<close>

theorem user_error_containment:
  "(user (watchers st w) \<and> getter_result st w = Inl e \<longrightarrow>
      (fst (handleError (after_getter st w) e (vm (watchers st w)) (getter_info st w)) = Inr () \<longrightarrow>
         get st w =
           finish_get
             (snd (handleError (after_getter st w) e (vm (watchers st w)) (getter_info st w)))
             w VUndefined \<and>
         fst (get st w) = Inr VUndefined \<and>
         targetStack (snd (get st w)) = targetStack st \<and>
         newDeps (watchers (snd (get st w)) w) = [] \<and>
         newDepIds (watchers (snd (get st w)) w) = {} \<and>
         events (snd (get st w)) =
           events st @ [GetterCall w] @
             (case errorHandler (env st) of
                Some h \<Rightarrow> [HandlerCall e (vm (watchers st w)) (getter_info st w)]
              | None \<Rightarrow> error_warning st e (vm (watchers st w)) (getter_info st w) @ [ConsoleError e])) \<and>
      (\<forall>e'. fst (handleError (after_getter st w) e (vm (watchers st w)) (getter_info st w)) = Inl e' \<longrightarrow>
         fst (get st w) = Inl e') \<and>
      (fst (get st w) = Inr VUndefined) =
        (case errorHandler (env st) of
           Some h \<Rightarrow> h e (vm (watchers st w)) (getter_info st w) = None
         | None \<Rightarrow> inBrowser (env st) \<and> hasConsole (env st))) \<and>
   (fst (handleError s' e v' i') = Inr ()) =
     (case errorHandler (env s') of
        Some h \<Rightarrow> h e v' i' = None
      | None \<Rightarrow> inBrowser (env s') \<and> hasConsole (env s')) \<and>
   (\<not> user (watchers st w) \<and> getter_result st w = Inl e \<longrightarrow>
      fst (get st w) = Inl e \<and>
      events (snd (get st w)) = events st @ [GetterCall w]) \<and>
   (active (watchers st w) \<and> get st w = (Inr v, s) \<and>
    (\<not> strict_eq v (wvalue (watchers st w)) \<or> isObject v \<or> deep (watchers st w)) \<and>
    cb (watchers st w) (vm (watchers st w)) v (wvalue (watchers st w)) = Some e \<longrightarrow>
      (user (watchers st w) \<longrightarrow>
         run st w =
           handleError
             (emit (s\<lparr>watchers := (watchers s)(w := (watchers s w)\<lparr>wvalue := v\<rparr>)\<rparr>)
                (CallbackCall w v (wvalue (watchers st w))))
             e (vm (watchers st w)) (callback_info st w) \<and>
         (fst (run st w) = Inr ()) =
           (case errorHandler (env st) of
              Some h \<Rightarrow> h e (vm (watchers st w)) (callback_info st w) = None
            | None \<Rightarrow> inBrowser (env st) \<and> hasConsole (env st))) \<and>
      (\<not> user (watchers st w) \<longrightarrow>
         fst (run st w) = Inl e \<and>
         events (snd (run st w)) = events s @ [CallbackCall w v (wvalue (watchers st w))])) \<and>
   (active (watchers st w) \<and> get st w = (Inl e, s) \<longrightarrow> run st w = (Inl e, s))"
proof (intro conjI impI allI)
  assume a: "user (watchers st w) \<and> getter_result st w = Inl e"
    and h: "fst (handleError (after_getter st w) e (vm (watchers st w)) (getter_info st w)) = Inr ()"
  from a have u: "user (watchers st w)" and g: "getter_result st w = Inl e" by simp_all
  note r = get_user_error_handled[OF u g h]
  have c: "(case errorHandler (env st) of
              Some k \<Rightarrow> k e (vm (watchers st w)) (getter_info st w) = None
            | None \<Rightarrow> inBrowser (env st) \<and> hasConsole (env st))"
    using h by (simp add: handleError_returns env_after_getter split: option.splits)
  show "get st w =
           finish_get
             (snd (handleError (after_getter st w) e (vm (watchers st w)) (getter_info st w)))
             w VUndefined" by (rule r(1))
  show "fst (get st w) = Inr VUndefined" by (rule r(2))
  show "targetStack (snd (get st w)) = targetStack st" by (rule r(3))
  show "newDeps (watchers (snd (get st w)) w) = []" by (rule r(4))
  show "newDepIds (watchers (snd (get st w)) w) = {}" by (rule r(5))
  show "events (snd (get st w)) =
           events st @ [GetterCall w] @
             (case errorHandler (env st) of
                Some h \<Rightarrow> [HandlerCall e (vm (watchers st w)) (getter_info st w)]
              | None \<Rightarrow> error_warning st e (vm (watchers st w)) (getter_info st w) @ [ConsoleError e])"
    using r(6) c by (auto simp: error_report_def split: option.splits)
next
  fix e'
  assume a: "user (watchers st w) \<and> getter_result st w = Inl e"
    and h: "fst (handleError (after_getter st w) e (vm (watchers st w)) (getter_info st w)) = Inl e'"
  then show "fst (get st w) = Inl e'" by (simp add: get_user_error_rethrown)
next
  assume a: "user (watchers st w) \<and> getter_result st w = Inl e"
  let ?h = "handleError (after_getter st w) e (vm (watchers st w)) (getter_info st w)"
  have "(fst (get st w) = Inr VUndefined) = (fst ?h = Inr ())"
  proof (cases "fst ?h")
    case (Inl e')
    then show ?thesis using a get_user_error_rethrown[of st w e e'] by simp
  next
    case (Inr u)
    then show ?thesis using a get_user_error_handled(2)[of st w e] by simp
  qed
  then show "(fst (get st w) = Inr VUndefined) =
        (case errorHandler (env st) of
           Some h \<Rightarrow> h e (vm (watchers st w)) (getter_info st w) = None
         | None \<Rightarrow> inBrowser (env st) \<and> hasConsole (env st))"
    by (simp add: handleError_returns env_after_getter split: option.splits)
next
  show "(fst (handleError s' e v' i') = Inr ()) =
     (case errorHandler (env s') of
        Some h \<Rightarrow> h e v' i' = None
      | None \<Rightarrow> inBrowser (env s') \<and> hasConsole (env s'))"
    by (rule handleError_returns)
next
  assume a: "\<not> user (watchers st w) \<and> getter_result st w = Inl e"
  then show "fst (get st w) = Inl e" by (simp add: get_internal_error(1))
  from a show "events (snd (get st w)) = events st @ [GetterCall w]"
    by (simp add: get_internal_error(2))
next
  assume a: "active (watchers st w) \<and> get st w = (Inr v, s) \<and>
    (\<not> strict_eq v (wvalue (watchers st w)) \<or> isObject v \<or> deep (watchers st w)) \<and>
    cb (watchers st w) (vm (watchers st w)) v (wvalue (watchers st w)) = Some e"
  then have a1: "active (watchers st w)" and a2: "get st w = (Inr v, s)"
    and a3: "\<not> strict_eq v (wvalue (watchers st w)) \<or> isObject v \<or> deep (watchers st w)"
    and a4: "cb (watchers st w) (vm (watchers st w)) v (wvalue (watchers st w)) = Some e"
    by simp_all
  note r = run_callback_error[OF a1 a2 a3 a4]
  have en: "env s = env st"
    using tracks_only_get[of st w] a2 by (simp add: tracks_only_def)
  {
    assume u: "user (watchers st w)"
    show "run st w =
           handleError
             (emit (s\<lparr>watchers := (watchers s)(w := (watchers s w)\<lparr>wvalue := v\<rparr>)\<rparr>)
                (CallbackCall w v (wvalue (watchers st w))))
             e (vm (watchers st w)) (callback_info st w)"
      by (rule r(1)[OF u])
    show "(fst (run st w) = Inr ()) =
           (case errorHandler (env st) of
              Some h \<Rightarrow> h e (vm (watchers st w)) (callback_info st w) = None
            | None \<Rightarrow> inBrowser (env st) \<and> hasConsole (env st))"
      by (simp add: r(1)[OF u] handleError_returns emit_def en split: option.splits)
  }
  {
    assume n: "\<not> user (watchers st w)"
    from r(2)[OF n] show "fst (run st w) = Inl e" by simp
    from r(2)[OF n] show "events (snd (run st w)) =
        events s @ [CallbackCall w v (wvalue (watchers st w))]" by simp
  }
next
  assume "active (watchers st w) \<and> get st w = (Inl e, s)"
  then show "run st w = (Inl e, s)" by (simp add: run_get_error)
qed

lemma boom_state_facts:
  "user (watchers boom_state 1) \<and> getter_result boom_state 1 = Inl (Error ''boom'') \<and>
   errorHandler (env boom_state) = None \<and> inBrowser (env boom_state) \<and>
   hasConsole (env boom_state) \<and> targetStack boom_state = []"
  by (simp add: boom_state_def boom_getter_def user_lazy_options_def getter_result_def
      eval_defs)

lemma boom_handled_state_facts:
  "user (watchers boom_handled_state 1) \<and>
   getter_result boom_handled_state 1 = Inl (Error ''boom'') \<and>
   errorHandler (env boom_handled_state) = Some quiet_handler \<and>
   targetStack boom_handled_state = []"
  by (simp add: boom_handled_state_def boom_getter_def user_lazy_options_def getter_result_def
      eval_defs)

lemma flaky_state_facts:
  "\<not> user (watchers flaky_state 1) \<and> getter_result flaky_state 1 = Inl (Error ''not ready'')"
  by (simp add: flaky_state_def flaky_getter_def lazy_options_def getter_result_def eval_defs)

lemma boom_node_state_facts:
  "user (watchers boom_node_state 1) \<and>
   getter_result boom_node_state 1 = Inl (Error ''boom'') \<and>
   errorHandler (env boom_node_state) = None \<and> \<not> inBrowser (env boom_node_state)"
  by (simp add: boom_node_state_def boom_getter_def user_lazy_options_def getter_result_def
      eval_defs)

lemma boom_thrower_state_facts:
  "user (watchers boom_thrower_state 1) \<and>
   getter_result boom_thrower_state 1 = Inl (Error ''boom'') \<and>
   errorHandler (env boom_thrower_state) = Some throwing_handler"
  by (simp add: boom_thrower_state_def boom_getter_def user_lazy_options_def getter_result_def
      eval_defs)

lemma cb_state_facts:
  "active (watchers cb_state 1) \<and> user (watchers cb_state 1) \<and> deep (watchers cb_state 1) \<and>
   errorHandler (env cb_state) = None \<and> inBrowser (env cb_state) \<and> hasConsole (env cb_state) \<and>
   fst (get cb_state 1) = Inr (VNum 0x3FF0000000000000) \<and>
   wvalue (watchers cb_state 1) = VNum 0x3FF0000000000000 \<and>
   cb (watchers cb_state 1) (vm (watchers cb_state 1)) (VNum 0x3FF0000000000000)
      (VNum 0x3FF0000000000000) = Some (Error ''cb'')"
  by (simp add: cb_state_def one_getter_def boom_cb_def user_deep_options_def eval_defs)

lemma cb_internal_state_facts:
  "active (watchers cb_internal_state 1) \<and> \<not> user (watchers cb_internal_state 1) \<and>
   deep (watchers cb_internal_state 1) \<and>
   fst (get cb_internal_state 1) = Inr (VNum 0x3FF0000000000000) \<and>
   wvalue (watchers cb_internal_state 1) = VNum 0x3FF0000000000000 \<and>
   cb (watchers cb_internal_state 1) (vm (watchers cb_internal_state 1))
      (VNum 0x3FF0000000000000) (VNum 0x3FF0000000000000) = Some (Error ''cb'')"
  by (simp add: cb_internal_state_def one_getter_def boom_cb_def deep_options_def eval_defs)

lemma flaky_state_active:
  "active (watchers flaky_state 1) \<and> fst (get flaky_state 1) = Inl (Error ''not ready'')"
  by (simp add: flaky_state_def flaky_getter_def lazy_options_def eval_defs)

theorem user_error_containment_witness:
  "user (watchers boom_state 1) \<and> getter_result boom_state 1 = Inl (Error ''boom'') \<and>
   errorHandler (env boom_state) = None \<and> inBrowser (env boom_state) \<and>
   hasConsole (env boom_state) \<and>
   fst (get boom_state 1) = Inr VUndefined \<and>
   targetStack (snd (get boom_state 1)) = [] \<and>
   newDeps (watchers (snd (get boom_state 1)) 1) = [] \<and>
   user (watchers boom_handled_state 1) \<and>
   getter_result boom_handled_state 1 = Inl (Error ''boom'') \<and>
   errorHandler (env boom_handled_state) = Some quiet_handler \<and>
   fst (get boom_handled_state 1) = Inr VUndefined \<and>
   targetStack (snd (get boom_handled_state 1)) = [] \<and>
   user (watchers boom_node_state 1) \<and>
   getter_result boom_node_state 1 = Inl (Error ''boom'') \<and>
   errorHandler (env boom_node_state) = None \<and> \<not> inBrowser (env boom_node_state) \<and>
   fst (get boom_node_state 1) = Inl (Error ''boom'') \<and>
   user (watchers boom_thrower_state 1) \<and>
   getter_result boom_thrower_state 1 = Inl (Error ''boom'') \<and>
   errorHandler (env boom_thrower_state) = Some throwing_handler \<and>
   fst (get boom_thrower_state 1) = Inl (Error ''handler'') \<and>
   \<not> user (watchers flaky_state 1) \<and> getter_result flaky_state 1 = Inl (Error ''not ready'') \<and>
   fst (get flaky_state 1) = Inl (Error ''not ready'') \<and>
   active (watchers flaky_state 1) \<and>
   fst (run flaky_state 1) = Inl (Error ''not ready'') \<and>
   active (watchers cb_state 1) \<and> user (watchers cb_state 1) \<and> deep (watchers cb_state 1) \<and>
   fst (run cb_state 1) = Inr () \<and>
   active (watchers cb_internal_state 1) \<and> \<not> user (watchers cb_internal_state 1) \<and>
   deep (watchers cb_internal_state 1) \<and>
   fst (run cb_internal_state 1) = Inl (Error ''cb'')"
proof -
  have hb: "fst (handleError (after_getter boom_state 1) (Error ''boom'')
                  (vm (watchers boom_state 1)) (getter_info boom_state 1)) = Inr ()"
    using boom_state_facts by (simp add: handleError_returns env_after_getter split: option.splits)
  have b: "fst (get boom_state 1) = Inr VUndefined \<and>
      targetStack (snd (get boom_state 1)) = targetStack boom_state \<and>
      newDeps (watchers (snd (get boom_state 1)) 1) = []"
    using user_error_containment [where st = boom_state and w = 1 and e = "Error ''boom''"]
      boom_state_facts hb
    by blast
  have hh: "fst (handleError (after_getter boom_handled_state 1) (Error ''boom'')
                  (vm (watchers boom_handled_state 1)) (getter_info boom_handled_state 1)) = Inr ()"
    using boom_handled_state_facts
    by (simp add: handleError_returns env_after_getter quiet_handler_def split: option.splits)
  have bh: "fst (get boom_handled_state 1) = Inr VUndefined \<and>
      targetStack (snd (get boom_handled_state 1)) = targetStack boom_handled_state"
    using user_error_containment [where st = boom_handled_state and w = 1 and e = "Error ''boom''"]
      boom_handled_state_facts hh
    by blast
  have hn: "fst (handleError (after_getter boom_node_state 1) (Error ''boom'')
                  (vm (watchers boom_node_state 1)) (getter_info boom_node_state 1))
              = Inl (Error ''boom'')"
    using boom_node_state_facts
    by (simp add: handleError_throws env_after_getter split: option.splits)
  have bn: "fst (get boom_node_state 1) = Inl (Error ''boom'')"
    using user_error_containment [where st = boom_node_state and w = 1 and e = "Error ''boom''"]
      boom_node_state_facts hn
    by blast
  have ht: "fst (handleError (after_getter boom_thrower_state 1) (Error ''boom'')
                  (vm (watchers boom_thrower_state 1)) (getter_info boom_thrower_state 1))
              = Inl (Error ''handler'')"
    using boom_thrower_state_facts
    by (simp add: handleError_throws env_after_getter throwing_handler_def split: option.splits)
  have bt: "fst (get boom_thrower_state 1) = Inl (Error ''handler'')"
    using user_error_containment [where st = boom_thrower_state and w = 1 and e = "Error ''boom''"]
      boom_thrower_state_facts ht
    by blast
  have f: "fst (get flaky_state 1) = Inl (Error ''not ready'')"
    using user_error_containment [where st = flaky_state and w = 1 and e = "Error ''not ready''"]
      flaky_state_facts
    by blast
  have fa: "active (watchers flaky_state 1)"
    using flaky_state_active by simp
  have fg: "get flaky_state 1 = (Inl (Error ''not ready''), snd (get flaky_state 1))"
    using flaky_state_active by (cases "get flaky_state 1") simp
  have fr0: "run flaky_state 1 = (Inl (Error ''not ready''), snd (get flaky_state 1))"
    using user_error_containment [where st = flaky_state and w = 1 and e = "Error ''not ready''"
        and s = "snd (get flaky_state 1)"] fa fg
    by blast
  have fr: "fst (run flaky_state 1) = Inl (Error ''not ready'')"
    using fr0 by simp
  have g: "get cb_state 1 = (Inr (VNum 0x3FF0000000000000), snd (get cb_state 1))"
    using cb_state_facts by (cases "get cb_state 1") simp
  have k: "cb (watchers cb_state 1) (vm (watchers cb_state 1)) (VNum 0x3FF0000000000000)
      (wvalue (watchers cb_state 1)) = Some (Error ''cb'')"
    using cb_state_facts by simp
  have a: "active (watchers cb_state 1)" and u: "user (watchers cb_state 1)"
    and d: "deep (watchers cb_state 1)"
    using cb_state_facts by simp_all
  have c0: "(fst (run cb_state 1) = Inr ()) =
      (case errorHandler (env cb_state) of
         Some h \<Rightarrow> h (Error ''cb'') (vm (watchers cb_state 1)) (callback_info cb_state 1) = None
       | None \<Rightarrow> inBrowser (env cb_state) \<and> hasConsole (env cb_state))"
    using user_error_containment [where st = cb_state and w = 1 and e = "Error ''cb''"
        and v = "VNum 0x3FF0000000000000" and s = "snd (get cb_state 1)"] g k a u d
    by blast
  have c: "fst (run cb_state 1) = Inr ()"
    using c0 cb_state_facts by simp
  have gi: "get cb_internal_state 1 =
      (Inr (VNum 0x3FF0000000000000), snd (get cb_internal_state 1))"
    using cb_internal_state_facts by (cases "get cb_internal_state 1") simp
  have ki: "cb (watchers cb_internal_state 1) (vm (watchers cb_internal_state 1))
      (VNum 0x3FF0000000000000) (wvalue (watchers cb_internal_state 1)) = Some (Error ''cb'')"
    using cb_internal_state_facts by simp
  have ai: "active (watchers cb_internal_state 1)" and ui: "\<not> user (watchers cb_internal_state 1)"
    and di: "deep (watchers cb_internal_state 1)"
    using cb_internal_state_facts by simp_all
  have ci: "fst (run cb_internal_state 1) = Inl (Error ''cb'')"
    using user_error_containment [where st = cb_internal_state and w = 1 and e = "Error ''cb''"
        and v = "VNum 0x3FF0000000000000" and s = "snd (get cb_internal_state 1)"] gi ki ai ui di
    by blast
  show ?thesis
    using b bh bn bt f fa fr c ci boom_state_facts boom_handled_state_facts boom_node_state_facts
      boom_thrower_state_facts flaky_state_facts cb_state_facts cb_internal_state_facts
    by simp
qed

text \<open>
  C5 as stated fails where \<open>handleError\<close> throws: with no handler configured and
  outside a browser it throws the error again, and with a handler configured that
  throws it throws the handler's error. Either way the error leaves \<open>get\<close> of the user
  watcher, and the evaluation does not go on as if the getter had returned
  \<open>undefined\<close>.
\<close>

theorem user_error_rethrown_counterexample:
  "user (watchers boom_node_state 1) \<and>
   getter_result boom_node_state 1 = Inl (Error ''boom'') \<and>
   fst (get boom_node_state 1) = Inl (Error ''boom'') \<and>
   user (watchers boom_thrower_state 1) \<and>
   getter_result boom_thrower_state 1 = Inl (Error ''boom'') \<and>
   fst (get boom_thrower_state 1) = Inl (Error ''handler'')"
  by (simp add: boom_node_state_def boom_thrower_state_def boom_getter_def user_lazy_options_def
      getter_result_def throwing_handler_def eval_defs)

section \<open>The constructor\<close>

lemma constructor_unfold:
  "constructor st v e c opts =
     (if flag opt_lazy opts then (Inr (Suc (uid st)), allocated st v e c opts)
      else
        (case get (allocated st v e c opts) (Suc (uid st)) of
           (Inl err, s) \<Rightarrow> (Inl err, s)
         | (Inr x, s) \<Rightarrow>
             (Inr (Suc (uid st)),
              s\<lparr>watchers := (watchers s)(Suc (uid st) :=
                   (watchers s (Suc (uid st)))\<lparr>wvalue := x\<rparr>)\<rparr>)))"
proof (cases e)
  case (Function src g)
  show ?thesis
    unfolding constructor_def allocated_def Let_def flag_def resolve_getter_def
      resolve_warning_def Function
    by (cases opts) (simp_all cong: prod.case_cong sum.case_cong)
next
  case (Path p)
  show ?thesis
  proof (cases "parsePath (env st) p")
    case (Some g)
    show ?thesis
      unfolding constructor_def allocated_def Let_def flag_def resolve_getter_def
        resolve_warning_def Path
      using Some by (cases opts) (simp_all cong: prod.case_cong sum.case_cong)
  next
    case None
    show ?thesis
      unfolding constructor_def allocated_def Let_def flag_def resolve_getter_def
        resolve_warning_def path_warning_def warn_def emit_def Path
      using None
      by (cases opts; cases "production (env st)") (simp_all cong: prod.case_cong sum.case_cong)
  qed
qed


lemma allocated_watcher:
  "watchers (allocated st v e c opts) (Suc (uid st)) =
     \<lparr>vm = v, expression = (if production (env st) then [] else toString e), cb = c,
      wid = Suc (uid st), deep = flag opt_deep opts, user = flag opt_user opts,
      lazy = flag opt_lazy opts, sync = flag opt_sync opts, dirty = flag opt_lazy opts,
      active = True, deps = [], newDeps = [], depIds = {}, newDepIds = {},
      getter = resolve_getter (env st) e, wvalue = VUndefined\<rparr>"
  by (simp add: allocated_def)

lemma allocated_rest:
  "uid (allocated st v e c opts) = Suc (uid st)"
  "vms (allocated st v e c opts) =
     (vms st)(v := (vms st v)\<lparr>watchers_vm := watchers_vm (vms st v) @ [Suc (uid st)]\<rparr>)"
  "events (allocated st v e c opts) = events st @ resolve_warning (env st) e v"
  "subs (allocated st v e c opts) = subs st"
  "env (allocated st v e c opts) = env st"
  "objects (allocated st v e c opts) = objects st"
  "x \<noteq> Suc (uid st) \<Longrightarrow> watchers (allocated st v e c opts) x = watchers st x"
  by (simp_all add: allocated_def)

lemma get_noop:
  assumes "getter (watchers s w) = noop_getter"
  shows "fst (get s w) = Inr VUndefined" and "events (snd (get s w)) = events s @ [GetterCall w]"
proof -
  have r: "getter_result s w = Inr VUndefined"
    using assms by (simp add: getter_result_def noop_getter_def)
  show "fst (get s w) = Inr VUndefined"
    by (simp add: get_returned[OF r] finish_get_undefined)
  show "events (snd (get s w)) = events s @ [GetterCall w]"
    by (simp add: get_returned[OF r] finish_get_undefined events_cleanupDeps events_popTarget
        events_after_getter)
qed

lemma get_fields:
  assumes "get s w = (r, s')"
  shows "same_fields (watchers s x) (watchers s' x)" and "uid s' = uid s" and "vms s' = vms s"
  using tracks_only_get[of s w] assms by (simp_all add: tracks_only_def)

text \<open>
  C8, amended. With a path that \<open>parsePath\<close> does not turn into a getter the
  constructor still succeeds, the getter of the new watcher is a function that does
  nothing, so that every evaluation returns \<open>undefined\<close> and throws nothing, and the
  warning is reported unless the build is a production build, which reports nothing.
\<close>

theorem malformed_expression:
  assumes "parsePath (env st) p = None"
  shows
    "fst (constructor st v (Path p) c opts) = Inr (Suc (uid st)) \<and>
     getter (watchers (snd (constructor st v (Path p) c opts)) (Suc (uid st))) = noop_getter \<and>
     (\<forall>s w. getter (watchers s w) = noop_getter \<longrightarrow> fst (get s w) = Inr VUndefined) \<and>
     fst (get (snd (constructor st v (Path p) c opts)) (Suc (uid st))) = Inr VUndefined \<and>
     events (snd (constructor st v (Path p) c opts)) =
       events st @
       (if production (env st) then [] else [Warn (path_warning p) v]) @
       (if flag opt_lazy opts then [] else [GetterCall (Suc (uid st))])"
proof -
  let ?a = "allocated st v (Path p) c opts"
  let ?w = "Suc (uid st)"
  let ?r = "constructor st v (Path p) c opts"
  have g: "getter (watchers ?a ?w) = noop_getter"
    using assms by (simp add: allocated_watcher resolve_getter_def)
  have ea: "events ?a = events st @ (if production (env st) then [] else [Warn (path_warning p) v])"
    using assms by (simp add: allocated_rest resolve_warning_def)
  have lz: "flag opt_lazy opts \<Longrightarrow> ?r = (Inr ?w, ?a)"
    by (simp add: constructor_unfold)
  obtain s where gs: "get ?a ?w = (Inr VUndefined, s)"
    using get_noop(1)[OF g] by (cases "get ?a ?w") simp
  have es: "events s = events ?a @ [GetterCall ?w]"
    using get_noop(2)[OF g] gs by simp
  have gg: "getter (watchers s ?w) = noop_getter"
    using get_fields(1)[OF gs, of ?w] g by (simp add: same_fields_def)
  have nl: "\<not> flag opt_lazy opts \<Longrightarrow>
      ?r = (Inr ?w, s\<lparr>watchers := (watchers s)(?w := (watchers s ?w)\<lparr>wvalue := VUndefined\<rparr>)\<rparr>)"
    using gs by (simp add: constructor_unfold)
  have c1: "fst ?r = Inr ?w" using lz nl by (cases "flag opt_lazy opts") simp_all
  have c2: "getter (watchers (snd ?r) ?w) = noop_getter"
    using lz nl g gg by (cases "flag opt_lazy opts") simp_all
  have c3: "\<forall>s w. getter (watchers s w) = noop_getter \<longrightarrow> fst (get s w) = Inr VUndefined"
    using get_noop(1) by blast
  have c4: "fst (get (snd ?r) ?w) = Inr VUndefined" using c2 c3 by blast
  have c5: "events (snd ?r) =
       events st @
       (if production (env st) then [] else [Warn (path_warning p) v]) @
       (if flag opt_lazy opts then [] else [GetterCall ?w])"
    using lz nl ea es by (cases "flag opt_lazy opts") simp_all
  show ?thesis using c1 c2 c3 c4 c5 by blast
qed

theorem malformed_expression_witness:
  "parsePath (env ex_state) ''a b'' = None \<and>
   fst (constructor ex_state 0 (Path ''a b'') ex_cb None) = Inr 1 \<and>
   fst (get (snd (constructor ex_state 0 (Path ''a b'') ex_cb None)) 1) = Inr VUndefined \<and>
   events (snd (constructor ex_state 0 (Path ''a b'') ex_cb None)) =
     [Warn (path_warning ''a b'') 0, GetterCall 1]"
proof -
  have p: "parsePath (env ex_state) ''a b'' = None"
    by (simp add: ex_state_def ex_config_def)
  have u: "uid ex_state = 0" and e: "events ex_state = []" and d: "\<not> production (env ex_state)"
    by (simp_all add: ex_state_def ex_config_def)
  show ?thesis
    using malformed_expression [OF p, of 0 ex_cb None] p u e d
    by (simp add: flag_def)
qed

text \<open>
  C8 as stated fails in a production build: the constructor degrades the getter and
  reports no warning.
\<close>

theorem malformed_expression_counterexample:
  "production (env prod_state) \<and>
   parsePath (env prod_state) ''a b'' = None \<and>
   fst (constructor prod_state 0 (Path ''a b'') ex_cb None) = Inr 1 \<and>
   events prod_state = [] \<and>
   events (snd (constructor prod_state 0 (Path ''a b'') ex_cb None)) = [GetterCall 1]"
  by (simp add: prod_state_def eval_defs)


lemma get_result_deps:
  assumes "newDeps (watchers st w) = []" and "newDepIds (watchers st w) = {}"
    and "get st w = (Inr v, st')"
  shows "deps (watchers st' w) = fresh {} (evaluation_reads st w)" and "v = yielded st w"
proof -
  obtain s where c: "collecting st w (evaluation_reads st w) s"
    and st': "st' = cleanupDeps (popTarget s) w" and v: "v = yielded st w"
    using get_collecting[OF assms(3)] by blast
  have "watchers (popTarget s) = watchers s" by (simp add: popTarget_def)
  then show "deps (watchers st' w) = fresh {} (evaluation_reads st w)"
    using c assms(1,2) by (simp add: st' cleanupDeps_eq collecting_def)
  show "v = yielded st w" by (rule v)
qed

lemma constructor_facts:
  "watchers_vm (vms (snd (constructor st v e c opts)) v) = watchers_vm (vms st v) @ [Suc (uid st)] \<and>
   wid (watchers (snd (constructor st v e c opts)) (Suc (uid st))) = Suc (uid st) \<and>
   uid (snd (constructor st v e c opts)) = Suc (uid st) \<and>
   uid st < wid (watchers (snd (constructor st v e c opts)) (Suc (uid st))) \<and>
   (flag opt_lazy opts \<longrightarrow>
      fst (constructor st v e c opts) = Inr (Suc (uid st)) \<and>
      getter_calls (snd (constructor st v e c opts)) = getter_calls st \<and>
      wvalue (watchers (snd (constructor st v e c opts)) (Suc (uid st))) = VUndefined \<and>
      deps (watchers (snd (constructor st v e c opts)) (Suc (uid st))) = [] \<and>
      newDeps (watchers (snd (constructor st v e c opts)) (Suc (uid st))) = [] \<and>
      depIds (watchers (snd (constructor st v e c opts)) (Suc (uid st))) = {} \<and>
      newDepIds (watchers (snd (constructor st v e c opts)) (Suc (uid st))) = {} \<and>
      dirty (watchers (snd (constructor st v e c opts)) (Suc (uid st)))) \<and>
   (\<not> flag opt_lazy opts \<longrightarrow>
      getter_calls (snd (constructor st v e c opts)) = getter_calls st @ [GetterCall (Suc (uid st))] \<and>
      \<not> dirty (watchers (snd (constructor st v e c opts)) (Suc (uid st))) \<and>
      getter_result (allocated st v e c opts) (Suc (uid st)) =
        snd (resolve_getter (env st) e v (objects st)) \<and>
      getter_reads (allocated st v e c opts) (Suc (uid st)) =
        fst (resolve_getter (env st) e v (objects st)) \<and>
      (\<forall>x s. get (allocated st v e c opts) (Suc (uid st)) = (Inr x, s) \<longrightarrow>
         fst (constructor st v e c opts) = Inr (Suc (uid st)) \<and>
         wvalue (watchers (snd (constructor st v e c opts)) (Suc (uid st))) = x \<and>
         x = yielded (allocated st v e c opts) (Suc (uid st)) \<and>
         deps (watchers (snd (constructor st v e c opts)) (Suc (uid st))) =
           fresh {} (evaluation_reads (allocated st v e c opts) (Suc (uid st))) \<and>
         set (deps (watchers (snd (constructor st v e c opts)) (Suc (uid st)))) =
           set (evaluation_reads (allocated st v e c opts) (Suc (uid st)))) \<and>
      (\<forall>err s. get (allocated st v e c opts) (Suc (uid st)) = (Inl err, s) \<longrightarrow>
         constructor st v e c opts = (Inl err, s)))"
proof (cases "flag opt_lazy opts")
  case True
  have r: "constructor st v e c opts = (Inr (Suc (uid st)), allocated st v e c opts)"
    using True by (simp add: constructor_unfold)
  have gc: "getter_calls (allocated st v e c opts) = getter_calls st"
    by (cases e)
       (auto simp: getter_calls_def allocated_rest resolve_warning_def split: option.splits)
  show ?thesis
    using True gc by (simp add: r allocated_watcher allocated_rest)
next
  case False
  let ?a = "allocated st v e c opts"
  let ?w = "Suc (uid st)"
  let ?r = "constructor st v e c opts"
  obtain res s where g: "get ?a ?w = (res, s)" by (cases "get ?a ?w")
  have gc0: "getter_calls ?a = getter_calls st"
    by (cases e)
       (auto simp: getter_calls_def allocated_rest resolve_warning_def split: option.splits)
  have gc: "getter_calls s = getter_calls st @ [GetterCall ?w]"
    using getter_calls_get[of ?a ?w] g gc0 by simp
  have sf: "same_fields (watchers ?a ?w) (watchers s ?w)" and us: "uid s = Suc (uid st)"
    and vs: "vms s = vms ?a"
    using get_fields[OF g] by (simp_all add: allocated_rest)
  have f: "wid (watchers s ?w) = ?w" "dirty (watchers s ?w) = flag opt_lazy opts"
    using sf by (auto simp: same_fields_def allocated_watcher)
  have gr: "getter_result ?a ?w = snd (resolve_getter (env st) e v (objects st))"
    and gd: "getter_reads ?a ?w = fst (resolve_getter (env st) e v (objects st))"
    by (simp_all add: getter_result_def getter_reads_def allocated_watcher allocated_rest)
  show ?thesis
  proof (cases res)
    case (Inl err)
    have r: "?r = (Inl err, s)" using False g Inl by (simp add: constructor_unfold)
    show ?thesis
      using False g Inl gc f us vs gr gd
      by (simp add: r allocated_rest)
  next
    case (Inr x)
    have r: "?r = (Inr ?w, s\<lparr>watchers := (watchers s)(?w := (watchers s ?w)\<lparr>wvalue := x\<rparr>)\<rparr>)"
      using False g Inr by (simp add: constructor_unfold)
    have gx: "get ?a ?w = (Inr x, s)" using g Inr by simp
    have d: "deps (watchers s ?w) = fresh {} (evaluation_reads ?a ?w)" and y: "x = yielded ?a ?w"
      using get_result_deps[OF _ _ gx] by (simp_all add: allocated_watcher)
    show ?thesis
      using False gx gc f us vs gr gd d y
      by (simp add: r allocated_rest set_fresh getter_calls_watchers_update)
  qed
qed


text \<open>
  C10. The constructor appends the new watcher to the list of its component and gives
  it the next identifier, which is greater than the counter was and is the counter
  afterwards, whether it evaluates or not and whether the evaluation throws or not;
  the watcher constructed next gets the identifier after it.
  For a lazy watcher it calls no getter: the value is \<open>undefined\<close>, the dependency
  lists and sets are empty, the watcher is dirty. Otherwise it calls \<open>get\<close> once, and
  with it the getter once: when \<open>get\<close> returns, the value is what the getter yielded
  and the dependency list holds the Deps read; when \<open>get\<close> throws, so does the
  constructor.
\<close>

theorem construction_evaluation:
  "watchers_vm (vms (snd (constructor st v e c opts)) v) = watchers_vm (vms st v) @ [Suc (uid st)] \<and>
   wid (watchers (snd (constructor st v e c opts)) (Suc (uid st))) = Suc (uid st) \<and>
   uid (snd (constructor st v e c opts)) = Suc (uid st) \<and>
   uid st < wid (watchers (snd (constructor st v e c opts)) (Suc (uid st))) \<and>
   (flag opt_lazy opts \<longrightarrow>
      fst (constructor st v e c opts) = Inr (Suc (uid st)) \<and>
      getter_calls (snd (constructor st v e c opts)) = getter_calls st \<and>
      wvalue (watchers (snd (constructor st v e c opts)) (Suc (uid st))) = VUndefined \<and>
      deps (watchers (snd (constructor st v e c opts)) (Suc (uid st))) = [] \<and>
      newDeps (watchers (snd (constructor st v e c opts)) (Suc (uid st))) = [] \<and>
      depIds (watchers (snd (constructor st v e c opts)) (Suc (uid st))) = {} \<and>
      newDepIds (watchers (snd (constructor st v e c opts)) (Suc (uid st))) = {} \<and>
      dirty (watchers (snd (constructor st v e c opts)) (Suc (uid st)))) \<and>
   (\<not> flag opt_lazy opts \<longrightarrow>
      getter_calls (snd (constructor st v e c opts)) = getter_calls st @ [GetterCall (Suc (uid st))] \<and>
      \<not> dirty (watchers (snd (constructor st v e c opts)) (Suc (uid st))) \<and>
      getter_result (allocated st v e c opts) (Suc (uid st)) =
        snd (resolve_getter (env st) e v (objects st)) \<and>
      getter_reads (allocated st v e c opts) (Suc (uid st)) =
        fst (resolve_getter (env st) e v (objects st)) \<and>
      (\<forall>x s. get (allocated st v e c opts) (Suc (uid st)) = (Inr x, s) \<longrightarrow>
         fst (constructor st v e c opts) = Inr (Suc (uid st)) \<and>
         wvalue (watchers (snd (constructor st v e c opts)) (Suc (uid st))) = x \<and>
         x = yielded (allocated st v e c opts) (Suc (uid st)) \<and>
         deps (watchers (snd (constructor st v e c opts)) (Suc (uid st))) =
           fresh {} (evaluation_reads (allocated st v e c opts) (Suc (uid st))) \<and>
         set (deps (watchers (snd (constructor st v e c opts)) (Suc (uid st)))) =
           set (evaluation_reads (allocated st v e c opts) (Suc (uid st)))) \<and>
      (\<forall>err s. get (allocated st v e c opts) (Suc (uid st)) = (Inl err, s) \<longrightarrow>
         constructor st v e c opts = (Inl err, s))) \<and>
   (\<forall>v' e' c' opts'.
      wid (watchers (snd (constructor (snd (constructor st v e c opts)) v' e' c' opts'))
             (Suc (uid (snd (constructor st v e c opts))))) =
        Suc (wid (watchers (snd (constructor st v e c opts)) (Suc (uid st)))))"
proof -
  have n: "wid (watchers (snd (constructor s v' e' c' opts')) (Suc (uid s))) = Suc (uid s)"
    for s v' e' c' opts'
    using constructor_facts[of s v' e' c' opts'] by blast
  have u: "uid (snd (constructor st v e c opts)) = Suc (uid st)"
    using constructor_facts[of st v e c opts] by blast
  have "\<forall>v' e' c' opts'.
      wid (watchers (snd (constructor (snd (constructor st v e c opts)) v' e' c' opts'))
             (Suc (uid (snd (constructor st v e c opts))))) =
        Suc (wid (watchers (snd (constructor st v e c opts)) (Suc (uid st))))"
    using n[of "snd (constructor st v e c opts)"] n[of st v e c opts] u by simp
  then show ?thesis
    using constructor_facts[of st v e c opts] by blast
qed

theorem construction_evaluation_witness:
  "flag opt_lazy (Some lazy_options) \<and>
   getter_calls lazy_state = [] \<and>
   wvalue (watchers lazy_state 1) = VUndefined \<and>
   deps (watchers lazy_state 1) = [] \<and>
   dirty (watchers lazy_state 1) \<and>
   \<not> flag opt_lazy None \<and>
   fst (get (allocated ex_state 0 (Function ''two'' two_getter) ex_cb None) 1) =
     Inr (VNum 0x3FF0000000000000) \<and>
   getter_calls two_state = [GetterCall 1] \<and>
   wvalue (watchers two_state 1) = VNum 0x3FF0000000000000 \<and>
   deps (watchers two_state 1) = [1, 2] \<and>
   watchers_vm (vms two_state 0) = [1] \<and>
   wid (watchers two_state 1) = 1 \<and>
   uid two_state = 1"
proof -
  let ?a = "allocated ex_state 0 (Function ''two'' two_getter) ex_cb None"
  have u: "uid ex_state = 0" "getter_calls ex_state = []" "watchers_vm (vms ex_state 0) = []"
    by (simp_all add: eval_defs)
  have l: "flag opt_lazy (Some lazy_options)" and n: "\<not> flag opt_lazy None"
    by (simp_all add: flag_def lazy_options_def)
  have g1: "fst (get ?a 1) = Inr (VNum 0x3FF0000000000000)"
    by (simp add: allocated_def flag_def resolve_getter_def resolve_warning_def two_getter_def
        eval_defs)
  then have g: "get ?a (Suc (uid ex_state)) = (Inr (VNum 0x3FF0000000000000), snd (get ?a 1))"
    using u by (cases "get ?a 1") simp
  have er: "evaluation_reads ?a (Suc 0) = [1, 2, 1]"
    by (simp add: evaluation_reads_def getter_reads_def allocated_def flag_def resolve_getter_def
        two_getter_def eval_defs)
  note tl = construction_evaluation
    [of ex_state 0 "Function ''one'' one_getter" ex_cb "Some lazy_options"]
  note tn = construction_evaluation [of ex_state 0 "Function ''two'' two_getter" ex_cb None]
  have a: "getter_calls lazy_state = [] \<and> wvalue (watchers lazy_state 1) = VUndefined \<and>
      deps (watchers lazy_state 1) = [] \<and> dirty (watchers lazy_state 1)"
    using tl l u unfolding lazy_state_def by simp
  have b: "getter_calls two_state = [GetterCall 1] \<and> watchers_vm (vms two_state 0) = [1] \<and>
      wid (watchers two_state 1) = 1 \<and> uid two_state = 1"
    using tn n u unfolding two_state_def by simp
  have c: "wvalue (watchers two_state (Suc (uid ex_state))) = VNum 0x3FF0000000000000 \<and>
      deps (watchers two_state (Suc (uid ex_state))) =
        fresh {} (evaluation_reads ?a (Suc (uid ex_state)))"
    using tn n g unfolding two_state_def by blast
  have c': "wvalue (watchers two_state 1) = VNum 0x3FF0000000000000 \<and>
      deps (watchers two_state 1) = [1, 2]"
    using c u er by simp
  show ?thesis
    using l n g1 a b c' by simp
qed

section \<open>The working set between evaluations\<close>

text \<open>
  The condition under which \<open>get\<close> tracks exactly holds for a watcher that the
  constructor has returned, and \<open>get\<close> itself restores it whenever it returns.
\<close>

lemma get_restores_working_set:
  assumes "newDeps (watchers st w) = []" and "newDepIds (watchers st w) = {}"
    and "get st w = (Inr v, st')"
  shows "newDeps (watchers st' w) = [] \<and> newDepIds (watchers st' w) = {} \<and>
         depIds (watchers st' w) = set (deps (watchers st' w))"
proof -
  obtain s where c: "collecting st w (evaluation_reads st w) s"
    and st': "st' = cleanupDeps (popTarget s) w"
    using get_collecting[OF assms(3)] by blast
  have "watchers (popTarget s) = watchers s" by (simp add: popTarget_def)
  then show ?thesis
    using c assms(1,2) by (simp add: st' cleanupDeps_eq collecting_def set_fresh)
qed

lemma constructor_working_set:
  assumes "fst (constructor st v e c opts) = Inr w"
  shows "newDeps (watchers (snd (constructor st v e c opts)) w) = [] \<and>
         newDepIds (watchers (snd (constructor st v e c opts)) w) = {} \<and>
         depIds (watchers (snd (constructor st v e c opts)) w) =
           set (deps (watchers (snd (constructor st v e c opts)) w))"
proof (cases "flag opt_lazy opts")
  case True
  then show ?thesis
    using assms by (auto simp: constructor_unfold allocated_watcher)
next
  case False
  let ?a = "allocated st v e c opts"
  obtain r s where g: "get ?a (Suc (uid st)) = (r, s)" by (cases "get ?a (Suc (uid st))")
  show ?thesis
  proof (cases r)
    case (Inl err)
    then show ?thesis using assms False g by (simp add: constructor_unfold)
  next
    case (Inr x)
    have w: "w = Suc (uid st)" using assms False g Inr by (simp add: constructor_unfold)
    have "newDeps (watchers s (Suc (uid st))) = [] \<and> newDepIds (watchers s (Suc (uid st))) = {} \<and>
         depIds (watchers s (Suc (uid st))) = set (deps (watchers s (Suc (uid st))))"
      using g Inr by (intro get_restores_working_set[of ?a]) (simp_all add: allocated_watcher)
    then show ?thesis using False g Inr w by (simp add: constructor_unfold)
  qed
qed

section \<open>traverse\<close>

lemma finite_ob_ids: "finite (ob_ids h)"
proof -
  have "ob_ids h \<subseteq> (\<lambda>x. the (ob x)) ` set h"
    by (auto simp: ob_ids_def image_iff) (metis option.sel)
  then show ?thesis by (rule finite_subset) simp
qed

lemma lookup_in_set: "lookup h r = Some x \<Longrightarrow> x \<in> set h"
  by (auto simp: lookup_def split: if_splits)

lemma card_ob_ids_insert:
  assumes "lookup h r = Some x" and "ob x = Some d" and "d \<notin> S"
  shows "card (ob_ids h - S) = Suc (card (ob_ids h - insert d S))"
proof -
  have d: "d \<in> ob_ids h - S"
    using assms lookup_in_set[OF assms(1)] by (auto simp: ob_ids_def)
  have "ob_ids h - insert d S = (ob_ids h - S) - {d}" by auto
  then show ?thesis
    using card_Suc_Diff1[OF _ d] finite_ob_ids[of h] by simp
qed

lemma card_ob_ids_mono: "S \<subseteq> S' \<Longrightarrow> card (ob_ids h - S') \<le> card (ob_ids h - S)"
  by (rule card_mono) (auto simp: finite_ob_ids)

lemma traverse_returns_aux:
  "(ranked h rk B \<longrightarrow> card (ob_ids h - seen t) * (B + 2) + weight h rk v < n \<longrightarrow>
      fst (traverse' n h v t) = Inr () \<and> seen t \<subseteq> seen (snd (traverse' n h v t)))"
  "(ranked h rk B \<longrightarrow>
      (\<forall>K. (\<forall>s \<in> set ss. weight h rk (fst s) \<le> K) \<longrightarrow>
           card (ob_ids h - seen t) * (B + 2) + K < n \<longrightarrow>
           fst (traverse_slots n h ss t) = Inr () \<and> seen t \<subseteq> seen (snd (traverse_slots n h ss t))))"
proof (induction n h v t and n h ss t rule: traverse'_traverse_slots.induct)
  case (1 h v t)
  show ?case by simp
next
  case (2 n h v t)
  show ?case
  proof (intro impI)
    assume rk: "ranked h rk B"
      and m: "card (ob_ids h - seen t) * (B + 2) + weight h rk v < Suc n"
    show "fst (traverse' (Suc n) h v t) = Inr () \<and> seen t \<subseteq> seen (snd (traverse' (Suc n) h v t))"
    proof (cases "\<exists>r x. v = VRef r \<and> lookup h r = Some x \<and> isExtensible x")
      case False
      then show ?thesis by (auto split: val.splits option.splits)
    next
      case True
      then obtain r x where v: "v = VRef r" and l: "lookup h r = Some x" and e: "isExtensible x"
        by blast
      show ?thesis
      proof (cases "ob x")
        case None
        let ?t1 = "t\<lparr>visited := visited t @ [r]\<rparr>"
        have u: "unobserved h v" using v l e None by (simp add: unobserved_def)
        have w: "weight h rk v = Suc (rk r)" using u v by (simp add: weight_def)
        have k: "\<forall>s \<in> set (rev (slots x)). weight h rk (fst s) \<le> rk r"
        proof
          fix s assume s: "s \<in> set (rev (slots x))"
          show "weight h rk (fst s) \<le> rk r"
          proof (cases "unobserved h (fst s)")
            case False
            then show ?thesis by (auto simp: weight_def split: val.splits)
          next
            case True
            then obtain r' where r': "fst s = VRef r'"
              by (auto simp: unobserved_def split: val.splits)
            have "rk r' < rk r"
              using rk l e None s r' True unfolding ranked_def by (metis set_rev)
            then show ?thesis using True r' by (simp add: weight_def)
          qed
        qed
        have c: "card (ob_ids h - seen ?t1) * (B + 2) + rk r < n" using m w by simp
        have "fst (traverse_slots n h (rev (slots x)) ?t1) = Inr () \<and>
              seen ?t1 \<subseteq> seen (snd (traverse_slots n h (rev (slots x)) ?t1))"
          using "2.IH"(1)[OF v l _ None] e rk k c by blast
        then show ?thesis using v l e None by simp
      next
        case (Some d)
        show ?thesis
        proof (cases "d \<in> seen t")
          case True
          then show ?thesis using v l e Some by simp
        next
          case False
          let ?t1 = "t\<lparr>seen := insert d (seen t), visited := visited t @ [r]\<rparr>"
          have cd: "card (ob_ids h - seen t) = Suc (card (ob_ids h - insert d (seen t)))"
            by (rule card_ob_ids_insert[OF l Some False])
          have k: "\<forall>s \<in> set (rev (slots x)). weight h rk (fst s) \<le> Suc B"
          proof
            fix s assume "s \<in> set (rev (slots x))"
            show "weight h rk (fst s) \<le> Suc B"
            proof (cases "unobserved h (fst s)")
              case False
              then show ?thesis by (auto simp: weight_def split: val.splits)
            next
              case True
              then obtain r' x' where "fst s = VRef r'" "lookup h r' = Some x'"
                "isExtensible x'" "ob x' = None"
                by (auto simp: unobserved_def split: val.splits option.splits)
              then show ?thesis using rk True unfolding ranked_def by (auto simp: weight_def)
            qed
          qed
          have c: "card (ob_ids h - seen ?t1) * (B + 2) + Suc B < n" using m cd by simp
          have "fst (traverse_slots n h (rev (slots x)) ?t1) = Inr () \<and>
                seen ?t1 \<subseteq> seen (snd (traverse_slots n h (rev (slots x)) ?t1))"
            using "2.IH"(2)[OF v l _ Some False] e rk k c by blast
          then show ?thesis using v l e Some False by auto
        qed
      qed
    qed
  qed
next
  case (3 n h t)
  show ?case by simp
next
  case (4 n h s ss t)
  show ?case
  proof (intro impI allI)
    fix K
    assume rk: "ranked h rk B"
      and k: "\<forall>s \<in> set (s # ss). weight h rk (fst s) \<le> K"
      and c: "card (ob_ids h - seen t) * (B + 2) + K < n"
    let ?t0 = "t\<lparr>treads := treads t @ snd s\<rparr>"
    obtain x y where xy: "traverse' n h (fst s) ?t0 = (x, y)"
      by (cases "traverse' n h (fst s) ?t0")
    have "card (ob_ids h - seen ?t0) * (B + 2) + weight h rk (fst s) < n"
      using k c by simp
    then have p: "fst (traverse' n h (fst s) ?t0) = Inr () \<and>
        seen ?t0 \<subseteq> seen (snd (traverse' n h (fst s) ?t0))"
      using "4.IH"(1) rk by blast
    then have x: "x = Inr ()" and sy: "seen t \<subseteq> seen y" using xy by simp_all
    have "card (ob_ids h - seen y) \<le> card (ob_ids h - seen t)"
      by (rule card_ob_ids_mono[OF sy])
    then have "card (ob_ids h - seen y) * (B + 2) \<le> card (ob_ids h - seen t) * (B + 2)"
      by (rule mult_le_mono1)
    then have c': "card (ob_ids h - seen y) * (B + 2) + K < n" using c by simp
    have k': "\<forall>s \<in> set ss. weight h rk (fst s) \<le> K" using k by simp
    have "fst (traverse_slots n h ss y) = Inr () \<and> seen y \<subseteq> seen (snd (traverse_slots n h ss y))"
      using "4.IH"(2)[OF xy[symmetric] x] rk k' c' by blast
    then show "fst (traverse_slots n h (s # ss) t) = Inr () \<and>
        seen t \<subseteq> seen (snd (traverse_slots n h (s # ss) t))"
      using xy x sy by auto
  qed
qed


lemma traverse_once_aux:
  "(once_each h t \<longrightarrow>
      once_each h (snd (traverse' n h v t)) \<and> seen t \<subseteq> seen (snd (traverse' n h v t)))"
  "(once_each h t \<longrightarrow>
      once_each h (snd (traverse_slots n h ss t)) \<and> seen t \<subseteq> seen (snd (traverse_slots n h ss t)))"
proof (induction n h v t and n h ss t rule: traverse'_traverse_slots.induct)
  case (1 h v t)
  show ?case by simp
next
  case (2 n h v t)
  show ?case
  proof (intro impI)
    assume j: "once_each h t"
    show "once_each h (snd (traverse' (Suc n) h v t)) \<and> seen t \<subseteq> seen (snd (traverse' (Suc n) h v t))"
    proof (cases "\<exists>r x. v = VRef r \<and> lookup h r = Some x \<and> isExtensible x")
      case False
      then show ?thesis using j by (auto split: val.splits option.splits)
    next
      case True
      then obtain r x where v: "v = VRef r" and l: "lookup h r = Some x" and e: "isExtensible x"
        by blast
      show ?thesis
      proof (cases "ob x")
        case None
        let ?t1 = "t\<lparr>visited := visited t @ [r]\<rparr>"
        have "\<not> observed_ref h r" using l None by (simp add: observed_ref_def)
        then have "once_each h ?t1" using j l None by (auto simp: once_each_def)
        then have "once_each h (snd (traverse_slots n h (rev (slots x)) ?t1)) \<and>
              seen ?t1 \<subseteq> seen (snd (traverse_slots n h (rev (slots x)) ?t1))"
          using "2.IH"(1)[OF v l _ None] e by blast
        then show ?thesis using v l e None by simp
      next
        case (Some d)
        show ?thesis
        proof (cases "d \<in> seen t")
          case True
          then show ?thesis using v l e Some j by simp
        next
          case False
          let ?t1 = "t\<lparr>seen := insert d (seen t), visited := visited t @ [r]\<rparr>"
          have nr: "r \<notin> set (visited t)"
            using j l Some False by (auto simp: once_each_def)
          have "once_each h ?t1" using j l Some nr by (auto simp: once_each_def)
          then have "once_each h (snd (traverse_slots n h (rev (slots x)) ?t1)) \<and>
                seen ?t1 \<subseteq> seen (snd (traverse_slots n h (rev (slots x)) ?t1))"
            using "2.IH"(2)[OF v l _ Some False] e by blast
          then show ?thesis using v l e Some False by auto
        qed
      qed
    qed
  qed
next
  case (3 n h t)
  show ?case by simp
next
  case (4 n h s ss t)
  show ?case
  proof (intro impI)
    assume j: "once_each h t"
    let ?t0 = "t\<lparr>treads := treads t @ snd s\<rparr>"
    obtain x y where xy: "traverse' n h (fst s) ?t0 = (x, y)"
      by (cases "traverse' n h (fst s) ?t0")
    have "once_each h ?t0" using j by (auto simp: once_each_def)
    then have p: "once_each h y \<and> seen t \<subseteq> seen y"
      using "4.IH"(1) xy by simp
    show "once_each h (snd (traverse_slots n h (s # ss) t)) \<and>
        seen t \<subseteq> seen (snd (traverse_slots n h (s # ss) t))"
    proof (cases x)
      case (Inl err)
      then show ?thesis using xy p by simp
    next
      case (Inr u)
      have "once_each h (snd (traverse_slots n h ss y)) \<and> seen y \<subseteq> seen (snd (traverse_slots n h ss y))"
        using "4.IH"(2)[OF xy[symmetric] Inr] p by blast
      then show ?thesis using xy Inr p by auto
    qed
  qed
qed

lemma card_ob_ids_length: "card (ob_ids h) \<le> length h"
proof -
  have "ob_ids h \<subseteq> (\<lambda>x. the (ob x)) ` set h"
    by (auto simp: ob_ids_def image_iff) (metis option.sel)
  then have "card (ob_ids h) \<le> card ((\<lambda>x. the (ob x)) ` set h)"
    by (intro card_mono) simp_all
  also have "\<dots> \<le> card (set h)" by (rule card_image_le) simp
  also have "\<dots> \<le> length h" by (rule card_length)
  finally show ?thesis .
qed

lemma weight_le: "ranked h rk B \<Longrightarrow> weight h rk v \<le> Suc B"
  by (auto simp: weight_def ranked_def unobserved_def split: val.splits option.splits)

lemma traverse_returns:
  assumes "ranked (objects st) rk B"
    and "length (objects st) * (B + 2) + B < stackLimit (env st)"
  shows "fst (traverse st v) = Inr ()"
proof -
  let ?h = "objects st"
  let ?t0 = "\<lparr>seen = {}, treads = [], visited = []\<rparr>"
  have "card (ob_ids ?h) * (B + 2) \<le> length ?h * (B + 2)"
    by (rule mult_le_mono1) (rule card_ob_ids_length)
  then have "card (ob_ids ?h - seen ?t0) * (B + 2) + weight ?h rk v < Suc (stackLimit (env st))"
    using assms(2) weight_le[OF assms(1), of v] by simp
  then have "fst (traverse' (Suc (stackLimit (env st))) ?h v ?t0) = Inr ()"
    using traverse_returns_aux(1)[of ?h rk B ?t0 v] assms(1) by blast
  then show ?thesis
    by (cases "traverse' (Suc (stackLimit (env st))) ?h v ?t0")
       (simp add: traverse_def del: traverse'.simps)
qed

lemma all_observed_ranked:
  "\<forall>x \<in> set h. isExtensible x \<longrightarrow> ob x \<noteq> None \<Longrightarrow> ranked h (\<lambda>r. 0) 0"
  by (auto simp: ranked_def dest: lookup_in_set)

lemma traverse_visited_once:
  "distinct (filter (observed_ref (objects st)) (traverse_visited st v))"
proof -
  have "once_each (objects st) \<lparr>seen = {}, treads = [], visited = []\<rparr>"
    by (simp add: once_each_def)
  then show ?thesis
    using traverse_once_aux(1) unfolding traverse_visited_def once_each_def by blast
qed


lemma seenObjects_depend_all: "seenObjects (depend_all ds s) = seenObjects s"
proof -
  have a: "seenObjects (dep_depend s d) = seenObjects s" for s d
    by (simp add: dep_depend_def addDep_def addSub_def Let_def split: option.splits)
  show ?thesis
    unfolding depend_all_def by (induction ds arbitrary: s) (simp_all add: a)
qed

lemma traverse_seenObjects:
  "seenObjects (snd (traverse st v)) =
     seen (snd (traverse' (Suc (stackLimit (env st))) (objects st) v
                  \<lparr>seen = {}, treads = [], visited = []\<rparr>))"
  by (cases "traverse' (Suc (stackLimit (env st))) (objects st) v
               \<lparr>seen = {}, treads = [], visited = []\<rparr>")
     (simp add: traverse_def seenObjects_depend_all del: traverse'.simps)

lemma traverse_clears: "traverse (st\<lparr>seenObjects := S\<rparr>) v = traverse st v"
  by (simp add: traverse_def del: traverse'.simps)

lemma traverse_leaf:
  assumes "\<not> (\<exists>r x. v = VRef r \<and> lookup (objects st) r = Some x \<and> isExtensible x)"
  shows "traverse st v = (Inr (), st\<lparr>seenObjects := {}\<rparr>)" and "traverse_visited st v = []"
proof -
  have "traverse' (Suc (stackLimit (env st))) (objects st) v \<lparr>seen = {}, treads = [], visited = []\<rparr>
          = (Inr (), \<lparr>seen = {}, treads = [], visited = []\<rparr>)"
    using assms by (auto split: val.splits option.splits)
  then show "traverse st v = (Inr (), st\<lparr>seenObjects := {}\<rparr>)" and "traverse_visited st v = []"
    by (simp_all add: traverse_def traverse_visited_def depend_all_def del: traverse'.simps)
qed

text \<open>
  C7. \<open>traverse\<close> starts from an empty \<open>seen\<close> set whatever \<open>seenObjects\<close> held, and
  leaves in it what the traversal recorded. A value that is no object or array, or is
  not extensible, is a leaf: nothing is walked. At an extensible object that an
  observer wraps, \<open>_traverse\<close> returns at once if the identifier of the observer's Dep
  is in \<open>seen\<close>, and otherwise records it and walks the slots. So when every cycle of
  references passes through an observed container, the traversal returns, given stack
  for a bounded depth; in particular when every extensible object is observed. In any
  traversal no observed container has its slots walked twice.
\<close>

theorem traverse_cycle_safe:
  "traverse (st\<lparr>seenObjects := S\<rparr>) v = traverse st v \<and>
   seenObjects (snd (traverse st v)) =
     seen (snd (traverse' (Suc (stackLimit (env st))) (objects st) v
                  \<lparr>seen = {}, treads = [], visited = []\<rparr>)) \<and>
   (\<not> (\<exists>r x. v = VRef r \<and> lookup (objects st) r = Some x \<and> isExtensible x) \<longrightarrow>
      traverse st v = (Inr (), st\<lparr>seenObjects := {}\<rparr>) \<and> traverse_visited st v = []) \<and>
   (\<forall>n h r x d t. lookup h r = Some x \<and> isExtensible x \<and> ob x = Some d \<longrightarrow>
      traverse' (Suc n) h (VRef r) t =
        (if d \<in> seen t then (Inr (), t)
         else traverse_slots n h (rev (slots x))
                (t\<lparr>seen := insert d (seen t), visited := visited t @ [r]\<rparr>))) \<and>
   (\<forall>rk B. ranked (objects st) rk B \<and>
            length (objects st) * (B + 2) + B < stackLimit (env st) \<longrightarrow>
      fst (traverse st v) = Inr ()) \<and>
   ((\<forall>x \<in> set (objects st). isExtensible x \<longrightarrow> ob x \<noteq> None) \<and>
    2 * length (objects st) < stackLimit (env st) \<longrightarrow>
      fst (traverse st v) = Inr ()) \<and>
   distinct (filter (observed_ref (objects st)) (traverse_visited st v))"
proof -
  have a: "(\<forall>x \<in> set (objects st). isExtensible x \<longrightarrow> ob x \<noteq> None) \<and>
    2 * length (objects st) < stackLimit (env st) \<longrightarrow> fst (traverse st v) = Inr ()"
  proof
    assume h: "(\<forall>x \<in> set (objects st). isExtensible x \<longrightarrow> ob x \<noteq> None) \<and>
      2 * length (objects st) < stackLimit (env st)"
    then have "ranked (objects st) (\<lambda>r. 0) 0" by (simp add: all_observed_ranked)
    moreover have "length (objects st) * (0 + 2) + 0 < stackLimit (env st)"
      using h by (simp add: mult.commute)
    ultimately show "fst (traverse st v) = Inr ()" by (rule traverse_returns)
  qed
  have b: "\<forall>rk B. ranked (objects st) rk B \<and>
            length (objects st) * (B + 2) + B < stackLimit (env st) \<longrightarrow>
      fst (traverse st v) = Inr ()"
    using traverse_returns by blast
  have c: "\<forall>n h r x d t. lookup h r = Some x \<and> isExtensible x \<and> ob x = Some d \<longrightarrow>
      traverse' (Suc n) h (VRef r) t =
        (if d \<in> seen t then (Inr (), t)
         else traverse_slots n h (rev (slots x))
                (t\<lparr>seen := insert d (seen t), visited := visited t @ [r]\<rparr>))"
    by simp
  show ?thesis
    using a b c traverse_clears traverse_seenObjects
      traverse_leaf[of v st] traverse_visited_once
    by (simp only: simp_thms) blast
qed

lemma cyc_state_run:
  "traverse_visited cyc_state (VRef 0) = [0, 1, 2] \<and>
   traverse_reads cyc_state (VRef 0) = [5, 4] \<and>
   observed_ref (objects cyc_state) 0 \<and> observed_ref (objects cyc_state) 1"
  by code_simp


lemma cyc_heap_unobserved:
  assumes "lookup cyc_heap r = Some x" and "ob x = None"
  shows "slots x = [(VRef 0, [])]"
proof -
  have "r < 3" using assms(1) by (simp add: lookup_def cyc_heap_def split: if_splits)
  then have "r = 0 \<or> r = 1 \<or> r = 2" by arith
  then show ?thesis using assms by (auto simp: lookup_def cyc_heap_def)
qed

lemma cyc_state_ranked:
  "ranked (objects cyc_state) (\<lambda>r. 0) 0 \<and>
   length (objects cyc_state) * (0 + 2) + 0 < stackLimit (env cyc_state)"
proof -
  have o: "objects cyc_state = cyc_heap" by (simp add: cyc_state_def)
  have u: "\<not> unobserved cyc_heap (VRef 0)"
    by (simp add: unobserved_def lookup_def cyc_heap_def)
  have "ranked cyc_heap (\<lambda>r. 0) 0"
    unfolding ranked_def using cyc_heap_unobserved u by fastforce
  moreover have "length cyc_heap * (0 + 2) + 0 < stackLimit (env cyc_state)"
    by (simp add: cyc_state_def cyc_heap_def ex_state_def ex_config_def)
  ultimately show ?thesis by (simp add: o)
qed

theorem traverse_cycle_safe_witness:
  "ranked (objects cyc_state) (\<lambda>r. 0) 0 \<and>
   length (objects cyc_state) * (0 + 2) + 0 < stackLimit (env cyc_state) \<and>
   fst (traverse cyc_state (VRef 0)) = Inr () \<and>
   traverse_visited cyc_state (VRef 0) = [0, 1, 2] \<and>
   traverse_reads cyc_state (VRef 0) = [5, 4] \<and>
   distinct (filter (observed_ref (objects cyc_state)) (traverse_visited cyc_state (VRef 0))) \<and>
   traverse (cyc_state\<lparr>seenObjects := {10}\<rparr>) (VRef 0) = traverse cyc_state (VRef 0)"
proof -
  note t = traverse_cycle_safe [where st = cyc_state and S = "{10}" and v = "VRef 0"]
  have r: "fst (traverse cyc_state (VRef 0)) = Inr ()"
    using t cyc_state_ranked by blast
  have d: "distinct (filter (observed_ref (objects cyc_state)) (traverse_visited cyc_state (VRef 0)))"
    using t by blast
  have c: "traverse (cyc_state\<lparr>seenObjects := {10}\<rparr>) (VRef 0) = traverse cyc_state (VRef 0)"
    using t by blast
  show ?thesis
    using r d c cyc_state_ranked cyc_state_run by blast
qed

text \<open>
  Without an observer on the cycle the recursion has no end: on the object that refers
  to itself every depth of stack is exhausted.
\<close>

lemma unobserved_cycle_overflows:
  "fst (traverse' n self_heap (VRef 0) t) = Inl stack_overflow"
proof (induction n arbitrary: t)
  case 0
  show ?case by simp
next
  case (Suc n)
  let ?t1 = "t\<lparr>visited := visited t @ [0]\<rparr>\<lparr>treads := treads (t\<lparr>visited := visited t @ [0]\<rparr>) @ []\<rparr>"
  have "fst (traverse' n self_heap (VRef 0) ?t1) = Inl stack_overflow" by (rule Suc.IH)
  then show ?case
    by (cases "traverse' n self_heap (VRef 0) ?t1")
       (simp add: self_heap_def lookup_def)
qed

section \<open>createComputedGetter\<close>

text \<open>
  A computed property evaluates its lazy watcher on demand: reading it while the watcher
  is dirty calls the getter once, reading it while the watcher is clean calls no getter
  and yields the stored value.
\<close>

lemma getter_calls_depend: "getter_calls (depend s w) = getter_calls s"
  by (simp add: depend_def getter_calls_def events_depend_all)

lemma wvalue_depend: "wvalue (watchers (depend s w) x) = wvalue (watchers s x)"
  using tracks_only_depend_all[of s "rev (deps (watchers s w))"]
  by (simp add: depend_def tracks_only_def same_fields_def)

lemma computedGetter_clean:
  assumes "computedWatchers (vms st v) key = Some w" and "\<not> dirty (watchers st w)"
  shows "fst (computedGetter st v key) = Inr (wvalue (watchers st w))"
    and "getter_calls (snd (computedGetter st v key)) = getter_calls st"
  using assms
  by (simp_all add: computedGetter_def Let_def getter_calls_depend wvalue_depend)

lemma computedGetter_dirty:
  assumes "computedWatchers (vms st v) key = Some w" and "dirty (watchers st w)"
  shows "getter_calls (snd (computedGetter st v key)) = getter_calls st @ [GetterCall w]"
proof -
  obtain r s where e: "evaluate st w = (r, s)" by (cases "evaluate st w")
  have "getter_calls s = getter_calls st @ [GetterCall w]"
    using e getter_calls_get[of st w]
    by (cases "get st w")
       (auto simp: evaluate_def getter_calls_watchers_update split: sum.splits)
  then show ?thesis
    using assms e
    by (cases r) (simp_all add: computedGetter_def Let_def getter_calls_depend)
qed

end
